theory Spec2Isabelle
  imports Main "HOL-Library.Char_ord" "HOL-Library.List_Lexorder"
begin

text \<open>
  A shallow embedding of git-overlay's link lifecycle: the path validator
  (cmd/validate.go), the registry of managed files (internal/config/state.go), the link
  materializer (\<open>createLink\<close>, \<open>CreateLinks\<close>, \<open>copyFile\<close>, \<open>updateGitignore\<close>) and the
  clean command (cmd/clean.go), over a model of the file system the program works on.

  A Go \<open>string\<close> is a byte sequence; it is modelled as \<open>string\<close> (a list of
  \<open>char\<close>), compared byte by byte in lexicographic order as Go's \<open><\<close> on strings
  does (the order of \<open>List_Lexorder\<close> over \<open>Char_ord\<close>).
\<close>

section \<open>Go's \<open>strings\<close> and \<open>path/filepath\<close> functions (Unix)\<close>

text \<open>
  The functions of Go's standard library the program calls on paths. They are not part of
  the repository; they are written here after their documentation, with \<open>/\<close> as the
  only separator and no volume names.
\<close>

definition HasPrefix :: "string \<Rightarrow> string \<Rightarrow> bool" where
  "HasPrefix s p = (take (length p) s = p)"

definition HasSuffix :: "string \<Rightarrow> string \<Rightarrow> bool" where
  "HasSuffix s p = (length p \<le> length s \<and> drop (length s - length p) s = p)"

fun Contains :: "string \<Rightarrow> string \<Rightarrow> bool" where
  "Contains [] sub = (sub = [])"
| "Contains (c # cs) sub = (HasPrefix (c # cs) sub \<or> Contains cs sub)"

definition TrimPrefix :: "string \<Rightarrow> string \<Rightarrow> string" where
  "TrimPrefix s p = (if HasPrefix s p then drop (length p) s else s)"

text \<open>\<open>strings.Split(s, "/")\<close> and \<open>strings.Join(elems, "/")\<close>.\<close>

fun split_sep :: "string \<Rightarrow> string list" where
  "split_sep [] = [[]]"
| "split_sep (c # cs) =
     (if c = CHR ''/'' then [] # split_sep cs
      else (case split_sep cs of
              [] \<Rightarrow> [[c]]
            | w # ws \<Rightarrow> (c # w) # ws))"

fun join_sep :: "string list \<Rightarrow> string" where
  "join_sep [] = []"
| "join_sep [x] = x"
| "join_sep (x # y # ys) = x @ ''/'' @ join_sep (y # ys)"

definition IsAbs :: "string \<Rightarrow> bool" where
  "IsAbs p = HasPrefix p ''/''"

text \<open>
  \<open>filepath.Clean\<close> reads the elements of the path from left to right and keeps a stack
  of the elements of the result: an empty element (a repeated separator) and \<open>.\<close> are
  dropped; \<open>..\<close> removes the last element when that is a name, is dropped at the root of
  a rooted path, and is kept otherwise. \<open>clean_step\<close> is one such step on the stack
  \<open>out\<close> (last element first). The result is the stack joined by separators, after a
  \<open>/\<close> when the path is rooted; the empty result is written \<open>.\<close>.
\<close>

definition clean_step :: "bool \<Rightarrow> string \<Rightarrow> string list \<Rightarrow> string list" where
  "clean_step rooted seg out =
     (if seg = '''' \<or> seg = ''.'' then out
      else if seg = ''..'' then
        (case out of
           [] \<Rightarrow> if rooted then [] else [''..'']
         | t # rest \<Rightarrow> if t \<noteq> ''..'' then rest else if rooted then out else ''..'' # out)
      else seg # out)"

definition clean_elems :: "string \<Rightarrow> string list" where
  "clean_elems p = rev (fold (clean_step (IsAbs p)) (split_sep p) [])"

definition render :: "bool \<Rightarrow> string list \<Rightarrow> string" where
  "render rooted es =
     (if rooted then ''/'' @ join_sep es else if es = [] then ''.'' else join_sep es)"

definition Clean :: "string \<Rightarrow> string" where
  "Clean p = render (IsAbs p) (clean_elems p)"

text \<open>\<open>filepath.Join\<close> skips leading empty elements and cleans the joined rest.\<close>

definition Join :: "string list \<Rightarrow> string" where
  "Join elem =
     (case dropWhile (\<lambda>e. e = '''') elem of
        [] \<Rightarrow> ''''
      | es \<Rightarrow> Clean (join_sep es))"

text \<open>\<open>filepath.Dir\<close> cleans the path up to and including its last separator.\<close>

definition Dir :: "string \<Rightarrow> string" where
  "Dir p = Clean (rev (dropWhile (\<lambda>c. c \<noteq> CHR ''/'') (rev p)))"

text \<open>
  \<open>filepath.Rel\<close> cleans both paths, answers \<open>.\<close> when they are equal, fails when only
  one of them is rooted, and otherwise drops the elements they have in common: it fails
  when the rest of the base starts with \<open>..\<close> (the way up is not known lexically), and
  else answers one \<open>..\<close> per remaining element of the base followed by the rest of the
  target. \<open>None\<close> is the error.
\<close>

definition elems :: "string \<Rightarrow> string list" where
  "elems p = filter (\<lambda>s. s \<noteq> '''' \<and> s \<noteq> ''.'') (split_sep p)"

fun strip_common :: "string list \<Rightarrow> string list \<Rightarrow> string list \<times> string list" where
  "strip_common (b # bs) (t # ts) = (if b = t then strip_common bs ts else (b # bs, t # ts))"
| "strip_common bs ts = (bs, ts)"

definition Rel :: "string \<Rightarrow> string \<Rightarrow> string option" where
  "Rel basepath targpath =
     (let base = Clean basepath; targ = Clean targpath
      in if targ = base then Some ''.''
         else if IsAbs base \<noteq> IsAbs targ then None
         else (case strip_common (elems base) (elems targ) of
                 (b', t') \<Rightarrow>
                   if b' \<noteq> [] \<and> hd b' = ''..'' then None
                   else Some (join_sep (replicate (length b') ''..'' @ t'))))"

section \<open>Errors\<close>

text \<open>
  The error codes of the operating system that the model of the file system produces, and
  the errors of the program: one constructor per \<open>fmt.Errorf\<close> (or returned error) of
  the source, carrying what the message carries. \<open>NilFileInfoPanic\<close> is the run-time
  panic of clean when \<open>os.Lstat\<close> fails with an error that is not "does not exist";
  \<open>WalkFuelExhausted\<close> belongs to the model only (see \<open>Walk\<close>).
\<close>

datatype errno = ENOENT | ENOTDIR | EEXIST | EACCES | ELOOP | ENOTEMPTY | EISDIR | EINVAL | EPERM

datatype error =
    AbsolutePathNotAllowed string
  | InvalidPath
  | PathEscapesBase string
  | InvalidTargetPath error
  | CreateDirectoryFailed string errno
  | TargetAlreadyExists string
  | RemoveExistingFailed string errno
  | CopyGitignoreFailed errno
  | RelativePathFailed string string
  | CreateSymlinkFailed string string errno
  | CreateHardlinkFailed string string errno
  | CopyFailed string string errno
  | UnsupportedLinkMode string
  | LoadStateFailed
  | SaveStateFailed
  | SourceDoesNotExist string
  | WalkFailed errno
  | WalkRelativePathFailed
  | WalkFuelExhausted
  | ProcessDirectoryFailed string error
  | ProcessFileFailed string error
  | UpdateGitignoreFailed errno
  | OverlayDirectoryMissing
  | ReadingDirectory string errno
  | RereadingDirectory string errno
  | RemovingDirectory string errno
  | CleanupEmptyDirsFailed error
  | NilFileInfoPanic string

section \<open>The path validator (cmd/validate.go)\<close>

definition validatePath :: "string \<Rightarrow> string \<Rightarrow> error + unit" where
  "validatePath base path =
     (if IsAbs path then Inl (AbsolutePathNotAllowed path)
      else
        let cleanBase = Clean base;
            cleanPath = Clean (Join [base, path])
        in case Rel cleanBase cleanPath of
             None \<Rightarrow> Inl InvalidPath
           | Some rel \<Rightarrow>
               if HasPrefix rel ''..'' \<or> Contains path ''../'' then Inl (PathEscapesBase path)
               else Inr ())"

text \<open>
  Notions for the statements about the validator. \<open>below_base base path\<close>: the elements
  of the cleaned join of \<open>base\<close> and \<open>path\<close> after as many elements as the cleaned
  \<open>base\<close> has. \<open>inside_base base path\<close>: the cleaned join lies lexically inside the
  cleaned \<open>base\<close>, that is, it begins with the elements of the base and does not go on
  with \<open>..\<close> (which it can when the base has no name, as \<open>.\<close> or \<open>..\<close>).
  \<open>dotdot_name base path\<close>: the first name below the base is not \<open>..\<close> but begins with
  two dots. \<open>proper\<close>: a file name.
\<close>

definition below_base :: "string \<Rightarrow> string \<Rightarrow> string list" where
  "below_base base path = drop (length (elems (Clean base))) (elems (Clean (Join [base, path])))"

definition inside_base :: "string \<Rightarrow> string \<Rightarrow> bool" where
  "inside_base base path =
     (take (length (elems (Clean base))) (elems (Clean (Join [base, path]))) = elems (Clean base)
      \<and> (case below_base base path of [] \<Rightarrow> True | x # _ \<Rightarrow> x \<noteq> ''..''))"

definition dotdot_name :: "string \<Rightarrow> string \<Rightarrow> bool" where
  "dotdot_name base path =
     (case below_base base path of [] \<Rightarrow> False | x # _ \<Rightarrow> x \<noteq> ''..'' \<and> HasPrefix x ''..'')"

definition proper :: "string \<Rightarrow> bool" where
  "proper s = (s \<noteq> '''' \<and> s \<noteq> ''.'' \<and> s \<noteq> ''..'' \<and> CHR ''/'' \<notin> set s)"

text \<open>
  Two notions for the proofs about \<open>Clean\<close>: the shape of its stack (names above a run
  of \<open>..\<close>, which is empty when the path is rooted), and the string \<open>Join\<close> cleans.
\<close>

fun ok_stack :: "bool \<Rightarrow> string list \<Rightarrow> bool" where
  "ok_stack r [] = True"
| "ok_stack r (t # rest) =
     (if t = ''..'' then \<not> r \<and> (\<forall>x\<in>set rest. x = ''..'') else proper t \<and> ok_stack r rest)"

definition joined :: "string \<Rightarrow> string \<Rightarrow> string" where
  "joined base path = (if base = '''' then path else base @ ''/'' @ path)"

section \<open>The registry of managed files (internal/config/state.go)\<close>

text \<open>\<open>ManagedFile\<close> and \<open>State\<close> are the two structs of state.go.\<close>

record ManagedFile =
  Path :: string
  LinkMode :: string
  Source :: string

record State =
  ManagedFiles :: "ManagedFile list"

text \<open>
  Both \<open>AddManagedFile\<close> and \<open>RemoveManagedFile\<close> run the same loop,
  \<^verbatim>\<open>for i := len(s.ManagedFiles) - 1; i >= 0; i-- {
      if s.ManagedFiles[i].Path == path {
          s.ManagedFiles = append(s.ManagedFiles[:i], s.ManagedFiles[i+1:]...)
      }
  }\<close>
  \<open>remove_loop path n fs\<close> is the loop with \<open>n = i + 1\<close> iterations left:
  the index visited is \<open>n - 1\<close>, which is always inside the current slice.
\<close>

fun remove_loop :: "string \<Rightarrow> nat \<Rightarrow> ManagedFile list \<Rightarrow> ManagedFile list" where
  "remove_loop path 0 fs = fs"
| "remove_loop path (Suc i) fs =
     remove_loop path i
       (if Path (fs ! i) = path then take i fs @ drop (Suc i) fs else fs)"

definition RemoveManagedFile :: "string \<Rightarrow> State \<Rightarrow> State" where
  "RemoveManagedFile path s =
     s\<lparr>ManagedFiles := remove_loop path (length (ManagedFiles s)) (ManagedFiles s)\<rparr>"

definition AddManagedFile :: "string \<Rightarrow> string \<Rightarrow> string \<Rightarrow> State \<Rightarrow> State" where
  "AddManagedFile path linkMode source s =
     s\<lparr>ManagedFiles :=
         remove_loop path (length (ManagedFiles s)) (ManagedFiles s)
           @ [\<lparr>Path = path, LinkMode = linkMode, Source = source\<rparr>]\<rparr>"

text \<open>\<open>IsManagedFile\<close>: the first entry with the path, if any.\<close>

fun IsManagedFile_loop :: "string \<Rightarrow> ManagedFile list \<Rightarrow> ManagedFile option" where
  "IsManagedFile_loop path [] = None"
| "IsManagedFile_loop path (f # fs) =
     (if Path f = path then Some f else IsManagedFile_loop path fs)"

definition IsManagedFile :: "string \<Rightarrow> State \<Rightarrow> ManagedFile option" where
  "IsManagedFile path s = IsManagedFile_loop path (ManagedFiles s)"

text \<open>
  \<open>GetManagedFilesInDir\<close>: the loop appends to \<open>files\<close> every entry whose
  \<open>filepath.Dir\<close> is \<open>dir\<close> or whose path is \<open>dir\<close>.
\<close>

fun GetManagedFilesInDir_loop ::
  "string \<Rightarrow> ManagedFile list \<Rightarrow> ManagedFile list \<Rightarrow> ManagedFile list" where
  "GetManagedFilesInDir_loop dir [] files = files"
| "GetManagedFilesInDir_loop dir (f # fs) files =
     GetManagedFilesInDir_loop dir fs
       (if Dir (Path f) = dir \<or> Path f = dir then files @ [f] else files)"

definition GetManagedFilesInDir :: "string \<Rightarrow> State \<Rightarrow> ManagedFile list" where
  "GetManagedFilesInDir dir s = GetManagedFilesInDir_loop dir (ManagedFiles s) []"

text \<open>A run of registry operations, for the statement of the invariant.\<close>

datatype registry_op = Upsert string string string | Remove string

fun apply_registry_op :: "registry_op \<Rightarrow> State \<Rightarrow> State" where
  "apply_registry_op (Upsert p m src) s = AddManagedFile p m src s"
| "apply_registry_op (Remove p) s = RemoveManagedFile p s"

fun apply_registry_ops :: "registry_op list \<Rightarrow> State \<Rightarrow> State" where
  "apply_registry_ops [] s = s"
| "apply_registry_ops (x # xs) s = apply_registry_ops xs (apply_registry_op x s)"

definition unique_paths :: "State \<Rightarrow> bool" where
  "unique_paths s = distinct (map Path (ManagedFiles s))"

text \<open>A path is strictly nested under another when it continues it past a separator.\<close>

definition nested_under :: "string \<Rightarrow> string \<Rightarrow> bool" where
  "nested_under child anc =
     (length anc + 1 < length child \<and> take (length anc + 1) child = anc @ ''/'')"

section \<open>The order in which clean visits the managed paths (cmd/clean.go)\<close>

text \<open>
  \<open>strings.Count(p, "/")\<close> counts the separator bytes of \<open>p\<close>; \<open>less_path\<close> is the
  comparison function handed to \<open>sort.Slice\<close>:
  \<^verbatim>\<open>iDepth := strings.Count(sortedPaths[i], "/")
  jDepth := strings.Count(sortedPaths[j], "/")
  if iDepth == jDepth { return sortedPaths[i] > sortedPaths[j] }
  return iDepth > jDepth\<close>
\<close>

definition depth :: "string \<Rightarrow> nat" where
  "depth p = count_list p (CHR ''/'')"

definition less_path :: "string \<Rightarrow> string \<Rightarrow> bool" where
  "less_path p q =
     (let iDepth = depth p; jDepth = depth q
      in if iDepth = jDepth then p > q else iDepth > jDepth)"

text \<open>
  \<open>sort.Slice\<close> sorts in place by the comparison function. It is modelled by insertion
  sort with the same function: the slice holds the keys of a Go map, which are pairwise
  different, and on different strings \<open>less_path\<close> is a strict total order, so every
  correct sorting algorithm returns the same slice whatever order the map was iterated in
  (lemma \<open>sort_slice_unique\<close> below).
\<close>

fun insert_by :: "('a \<Rightarrow> 'a \<Rightarrow> bool) \<Rightarrow> 'a \<Rightarrow> 'a list \<Rightarrow> 'a list" where
  "insert_by lt x [] = [x]"
| "insert_by lt x (y # ys) = (if lt y x then y # insert_by lt x ys else x # y # ys)"

definition sort_slice :: "('a \<Rightarrow> 'a \<Rightarrow> bool) \<Rightarrow> 'a list \<Rightarrow> 'a list" where
  "sort_slice lt xs = foldr (insert_by lt) xs []"

text \<open>
  \<open>managedPaths\<close> is the key set of the map built from the registry; \<open>remdups\<close> lists
  each key once. \<open>sortedPaths\<close> is the sorted slice the main loop of clean ranges over.
\<close>

definition managedPaths :: "State \<Rightarrow> string list" where
  "managedPaths s = remdups (map Path (ManagedFiles s))"

definition sortedPaths :: "State \<Rightarrow> string list" where
  "sortedPaths s = sort_slice less_path (managedPaths s)"

section \<open>The file system\<close>

text \<open>
  The program works on the directory tree below its working directory: \<open>overlay\<close> (the
  target tree), \<open>.upstream\<close> (the source tree) and what the user keeps beside them. The
  tree is a value of type \<open>node\<close>: a regular file with its content and permission
  bits, a symbolic link with its target string, or a directory with a flag (may entries
  be added to and removed from it: its write permission) and its entries by name, held
  in the order \<open>os.ReadDir\<close> lists them (by file name).

  Assumptions of the model, which is of the operating system and not of the repository:
  the working directory is the root of the name space (\<open>..\<close> at the top stays there);
  only the write permission of directories is enforced; a hard link is a second node with
  the same content (the sharing is not followed: a later write through one name does not
  show under the other). The registry file and the \<open>.gitignore\<close> of the working
  directory are files of the tree like the others.
\<close>

datatype node = File string nat | Symlink string | Directory bool "(string \<times> node) list"

fun is_dir :: "node \<Rightarrow> bool" where
  "is_dir (Directory w es) = True"
| "is_dir _ = False"

fun entries :: "node \<Rightarrow> (string \<times> node) list" where
  "entries (Directory w es) = es"
| "entries _ = []"

fun dir_writable :: "node \<Rightarrow> bool" where
  "dir_writable (Directory w es) = w"
| "dir_writable _ = False"

text \<open>
  \<open>get\<close> reads the node at a list of names below a node, \<open>put\<close> writes or deletes
  (\<open>None\<close>) the node there; \<open>set_entry\<close> keeps the entries in name order.
\<close>

definition dir_child :: "node \<Rightarrow> string \<Rightarrow> node option" where
  "dir_child n s = map_of (entries n) s"

fun get :: "node \<Rightarrow> string list \<Rightarrow> node option" where
  "get n [] = Some n"
| "get n (s # rest) = (case dir_child n s of None \<Rightarrow> None | Some c \<Rightarrow> get c rest)"

definition del_entry :: "(string \<times> node) list \<Rightarrow> string \<Rightarrow> (string \<times> node) list" where
  "del_entry es s = filter (\<lambda>e. fst e \<noteq> s) es"

fun ins_entry :: "(string \<times> node) list \<Rightarrow> string \<Rightarrow> node \<Rightarrow> (string \<times> node) list" where
  "ins_entry [] s c = [(s, c)]"
| "ins_entry (e # es) s c = (if s \<le> fst e then (s, c) # e # es else e # ins_entry es s c)"

definition set_entry :: "(string \<times> node) list \<Rightarrow> string \<Rightarrow> node option \<Rightarrow> (string \<times> node) list" where
  "set_entry es s v =
     (case v of None \<Rightarrow> del_entry es s | Some c \<Rightarrow> ins_entry (del_entry es s) s c)"

fun put :: "node \<Rightarrow> string list \<Rightarrow> node option \<Rightarrow> node" where
  "put n [] v = (case v of None \<Rightarrow> n | Some n' \<Rightarrow> n')"
| "put n (s # rest) v =
     (case n of
        Directory w es \<Rightarrow>
          if rest = [] then Directory w (set_entry es s v)
          else (case map_of es s of
                  None \<Rightarrow> n
                | Some c \<Rightarrow> Directory w (set_entry es s (Some (put c rest v))))
      | _ \<Rightarrow> n)"

text \<open>
  Path resolution as the kernel does it. \<open>namei fuel root cur segs follow\<close> walks the
  elements \<open>segs\<close> from the directory at \<open>cur\<close>: it skips empty elements and \<open>.\<close>,
  goes up on \<open>..\<close>, descends into directories, and expands a symbolic link met on the
  way (at most \<open>fuel\<close> of them: the kernel gives up with \<open>ELOOP\<close> after 40); a link in
  last position is expanded only when \<open>follow\<close> is set (\<open>stat\<close>, \<open>open\<close>) and not
  otherwise (\<open>lstat\<close>, \<open>unlink\<close>, \<open>symlink\<close>, \<open>link\<close>, \<open>mkdir\<close>). The result is the
  place the path denotes, which holds a node or, when only the last element is missing,
  nothing yet.
\<close>

fun namei :: "nat \<Rightarrow> node \<Rightarrow> string list \<Rightarrow> string list \<Rightarrow> bool \<Rightarrow> errno + string list" where
  "namei fuel root cur [] follow = Inr cur"
| "namei fuel root cur (s # rest) follow =
     (if s = '''' \<or> s = ''.'' then namei fuel root cur rest follow
      else if s = ''..'' then namei fuel root (butlast cur) rest follow
      else (case get root (cur @ [s]) of
              None \<Rightarrow> if rest = [] then Inr (cur @ [s]) else Inl ENOENT
            | Some (Symlink t) \<Rightarrow>
                if rest = [] \<and> \<not> follow then Inr (cur @ [s])
                else (case fuel of
                        0 \<Rightarrow> Inl ELOOP
                      | Suc f \<Rightarrow>
                          namei f root (if IsAbs t then [] else cur) (split_sep t @ rest) follow)
            | Some (Directory w es) \<Rightarrow> namei fuel root (cur @ [s]) rest follow
            | Some (File c m) \<Rightarrow> if rest = [] then Inr (cur @ [s]) else Inl ENOTDIR))"

definition resolve :: "node \<Rightarrow> string \<Rightarrow> bool \<Rightarrow> errno + string list" where
  "resolve root p follow = (if p = '''' then Inl ENOENT else namei 40 root [] (split_sep p) follow)"

definition node_at :: "node \<Rightarrow> string \<Rightarrow> bool \<Rightarrow> errno + node" where
  "node_at root p follow =
     (case resolve root p follow of
        Inl e \<Rightarrow> Inl e
      | Inr loc \<Rightarrow> (case get root loc of None \<Rightarrow> Inl ENOENT | Some n \<Rightarrow> Inr n))"

definition os_Lstat :: "node \<Rightarrow> string \<Rightarrow> errno + node" where
  "os_Lstat root p = node_at root p False"

definition os_Stat :: "node \<Rightarrow> string \<Rightarrow> errno + node" where
  "os_Stat root p = node_at root p True"

text \<open>
  \<open>os.Mkdir\<close>, \<open>os.Symlink\<close> and \<open>os.Link\<close> create a new entry: the name must be
  free and its directory writable. \<open>os.Remove\<close> deletes a file, a link or an empty
  directory. \<open>os.RemoveAll\<close> deletes what it may of a tree (\<open>rm_node\<close>: \<open>None\<close> when
  the node is gone) and fails when something is left.
\<close>

definition parent_writable :: "node \<Rightarrow> string list \<Rightarrow> bool" where
  "parent_writable root loc =
     (case get root (butlast loc) of None \<Rightarrow> False | Some d \<Rightarrow> dir_writable d)"

definition create_at :: "node \<Rightarrow> string \<Rightarrow> node \<Rightarrow> errno + node" where
  "create_at root p n =
     (case resolve root p False of
        Inl e \<Rightarrow> Inl e
      | Inr loc \<Rightarrow>
          if get root loc \<noteq> None then Inl EEXIST
          else if \<not> parent_writable root loc then Inl EACCES
          else Inr (put root loc (Some n)))"

definition os_Mkdir :: "node \<Rightarrow> string \<Rightarrow> errno + node" where
  "os_Mkdir root p = create_at root p (Directory True [])"

definition os_Symlink :: "node \<Rightarrow> string \<Rightarrow> string \<Rightarrow> errno + node" where
  "os_Symlink root target p = create_at root p (Symlink target)"

definition os_Link :: "node \<Rightarrow> string \<Rightarrow> string \<Rightarrow> errno + node" where
  "os_Link root src dst =
     (case os_Lstat root src of
        Inl e \<Rightarrow> Inl e
      | Inr n \<Rightarrow> if is_dir n then Inl EPERM else create_at root dst n)"

definition os_Remove :: "node \<Rightarrow> string \<Rightarrow> errno + node" where
  "os_Remove root p =
     (case resolve root p False of
        Inl e \<Rightarrow> Inl e
      | Inr loc \<Rightarrow>
          (case get root loc of
             None \<Rightarrow> Inl ENOENT
           | Some n \<Rightarrow>
               if loc = [] then Inl EINVAL
               else if \<not> parent_writable root loc then Inl EACCES
               else if entries n \<noteq> [] then Inl ENOTEMPTY
               else Inr (put root loc None)))"

fun rm_node :: "bool \<Rightarrow> node \<Rightarrow> node option"
  and rm_entries :: "bool \<Rightarrow> (string \<times> node) list \<Rightarrow> (string \<times> node) list" where
  "rm_node pw (File c m) = (if pw then None else Some (File c m))"
| "rm_node pw (Symlink t) = (if pw then None else Some (Symlink t))"
| "rm_node pw (Directory w es) =
     (let es' = rm_entries w es in if es' = [] \<and> pw then None else Some (Directory w es'))"
| "rm_entries w [] = []"
| "rm_entries w (e # es) =
     (case rm_node w (snd e) of
        None \<Rightarrow> rm_entries w es
      | Some c' \<Rightarrow> (fst e, c') # rm_entries w es)"

definition os_RemoveAll :: "node \<Rightarrow> string \<Rightarrow> node \<times> errno option" where
  "os_RemoveAll root p =
     (case resolve root p False of
        Inl e \<Rightarrow> (root, if e = ENOENT then None else Some e)
      | Inr loc \<Rightarrow>
          (case get root loc of
             None \<Rightarrow> (root, None)
           | Some n \<Rightarrow>
               if loc = [] then (root, Some EINVAL)
               else (case rm_node (parent_writable root loc) n of
                       None \<Rightarrow> (put root loc None, None)
                     | Some n' \<Rightarrow> (put root loc (Some n'), Some EACCES))))"

definition os_ReadDir :: "node \<Rightarrow> string \<Rightarrow> errno + (string \<times> node) list" where
  "os_ReadDir root p =
     (case os_Stat root p of
        Inl e \<Rightarrow> Inl e
      | Inr n \<Rightarrow> if is_dir n then Inr (entries n) else Inl ENOTDIR)"

text \<open>
  \<open>os.MkdirAll\<close>: nothing to do when the path is a directory; otherwise the parent
  (the path up to its last separator, when there is one past the first byte) is made
  first, then the directory itself. The recursion is on a shorter string.
\<close>

definition parent_prefix :: "string \<Rightarrow> string option" where
  "parent_prefix path =
     (let j = length (dropWhile (\<lambda>c. c \<noteq> CHR ''/'') (dropWhile (\<lambda>c. c = CHR ''/'') (rev path)))
      in if j > 1 then Some (take (j - 1) path) else None)"

lemma parent_prefix_shorter: "parent_prefix path = Some par \<Longrightarrow> length par < length path"
proof -
  assume a: "parent_prefix path = Some par"
  let ?j = "length (dropWhile (\<lambda>c. c \<noteq> CHR ''/'') (dropWhile (\<lambda>c. c = CHR ''/'') (rev path)))"
  have "?j \<le> length (dropWhile (\<lambda>c. c = CHR ''/'') (rev path))"
    by (rule length_dropWhile_le)
  also have "\<dots> \<le> length (rev path)"
    by (rule length_dropWhile_le)
  finally have "?j \<le> length path" by simp
  then show ?thesis
    using a by (auto simp: parent_prefix_def Let_def split: if_splits)
qed

function MkdirAll :: "node \<Rightarrow> string \<Rightarrow> errno + node" where
  "MkdirAll root path =
     (case os_Stat root path of
        Inr n \<Rightarrow> if is_dir n then Inr root else Inl ENOTDIR
      | Inl _ \<Rightarrow>
          (case (case parent_prefix path of
                   None \<Rightarrow> Inr root
                 | Some par \<Rightarrow> MkdirAll root par) of
             Inl e \<Rightarrow> Inl e
           | Inr root' \<Rightarrow>
               (case os_Mkdir root' path of
                  Inr root'' \<Rightarrow> Inr root''
                | Inl e \<Rightarrow>
                    (case os_Lstat root' path of
                       Inr n \<Rightarrow> if is_dir n then Inr root' else Inl e
                     | Inl _ \<Rightarrow> Inl e))))"
  by pat_completeness auto
termination
  by (relation "measure (\<lambda>(root, path). length path)") (auto simp: parent_prefix_shorter)

text \<open>
  \<open>os.Create\<close> opens for writing through symbolic links: it creates the file where the
  path leads when nothing is there, and truncates a file that is.
\<close>

definition os_Create :: "node \<Rightarrow> string \<Rightarrow> errno + node \<times> string list" where
  "os_Create root p =
     (case resolve root p True of
        Inl e \<Rightarrow> Inl e
      | Inr loc \<Rightarrow>
          (case get root loc of
             None \<Rightarrow>
               if parent_writable root loc then Inr (put root loc (Some (File [] 420)), loc)
               else Inl EACCES
           | Some (File c m) \<Rightarrow> Inr (put root loc (Some (File [] m)), loc)
           | Some (Directory w es) \<Rightarrow> Inl EISDIR
           | Some (Symlink t) \<Rightarrow> Inl ELOOP))"


text \<open>
  \<open>os.ReadFile\<close> reads the bytes of a regular file, through links. \<open>os.WriteFile\<close>
  opens the file as \<open>os.Create\<close> does (through links, creating it when it is missing) and
  replaces its bytes.
\<close>

definition os_ReadFile :: "node \<Rightarrow> string \<Rightarrow> errno + string" where
  "os_ReadFile root p =
     (case os_Stat root p of
        Inl e \<Rightarrow> Inl e
      | Inr (File c m) \<Rightarrow> Inr c
      | Inr _ \<Rightarrow> Inl EISDIR)"

definition os_WriteFile :: "node \<Rightarrow> string \<Rightarrow> string \<Rightarrow> errno + node" where
  "os_WriteFile root p data =
     (case os_Create root p of
        Inl e \<Rightarrow> Inl e
      | Inr (root', loc) \<Rightarrow>
          (case get root' loc of
             Some (File c m) \<Rightarrow> Inr (put root' loc (Some (File data m)))
           | _ \<Rightarrow> Inl EINVAL))"

text \<open>
  A notion for the proofs about path resolution: what kind of node a place holds, which
  is all that \<open>namei\<close> looks at.
\<close>

datatype kind = KAbsent | KFile | KLink string | KDir

definition kind_at :: "node \<Rightarrow> string list \<Rightarrow> kind" where
  "kind_at root loc =
     (case get root loc of
        None \<Rightarrow> KAbsent
      | Some (File c m) \<Rightarrow> KFile
      | Some (Symlink t) \<Rightarrow> KLink t
      | Some (Directory w es) \<Rightarrow> KDir)"
section \<open>The link materializer\<close>

text \<open>
  \<open>copyFile\<close>: open the source, create the target, copy the bytes, and give the target
  the permission bits of the source. After a failure of the copy the created target stays.
\<close>

definition copyFile :: "node \<Rightarrow> string \<Rightarrow> string \<Rightarrow> node \<times> errno option" where
  "copyFile root src dst =
     (case resolve root src True of
        Inl e \<Rightarrow> (root, Some e)
      | Inr sloc \<Rightarrow>
          (case get root sloc of
             None \<Rightarrow> (root, Some ENOENT)
           | Some _ \<Rightarrow>
               (case os_Create root dst of
                  Inl e \<Rightarrow> (root, Some e)
                | Inr (root', dloc) \<Rightarrow>
                    (case get root' sloc of
                       Some (File c m) \<Rightarrow> (put root' dloc (Some (File c m)), None)
                     | _ \<Rightarrow> (root', Some EISDIR)))))"

text \<open>
  The registry file \<open>.git-overlay.state.json\<close> of the working directory
  (internal/config/state.go). It is a file of the tree like any other, so a target that
  leads to it reads and writes the registry. Its bytes are JSON, written by
  \<open>json.MarshalIndent\<close> and read by \<open>json.Unmarshal\<close>; the package \<open>encoding/json\<close> is
  not part of the repository, and its two functions are a parameter of the model (record
  \<open>json\<close>). \<open>LoadState\<close> answers the empty registry when the file is missing, and fails
  when it cannot be read or parsed; \<open>SaveState\<close> writes the file.
\<close>

record json =
  MarshalIndent :: "State \<Rightarrow> string"
  Unmarshal :: "string \<Rightarrow> State option"

definition LoadState :: "json \<Rightarrow> node \<Rightarrow> error + State" where
  "LoadState j root =
     (case os_ReadFile root ''.git-overlay.state.json'' of
        Inl e \<Rightarrow> if e = ENOENT then Inr \<lparr>ManagedFiles = []\<rparr> else Inl LoadStateFailed
      | Inr data \<Rightarrow>
          (case Unmarshal j data of
             None \<Rightarrow> Inl LoadStateFailed
           | Some s \<Rightarrow> Inr s))"

definition SaveState :: "json \<Rightarrow> State \<Rightarrow> node \<Rightarrow> error + node" where
  "SaveState j s root =
     (case os_WriteFile root ''.git-overlay.state.json'' (MarshalIndent j s) of
        Inl e \<Rightarrow> Inl SaveStateFailed
      | Inr root' \<Rightarrow> Inr root')"

text \<open>
  What one run of \<open>CreateLinks\<close> changes as it goes: the file system, the slice
  \<open>createdLinks\<close> and the registry in memory. \<open>track\<close> is the bookkeeping at the end
  of \<open>createLink\<close>.
\<close>

record run =
  run_fs :: node
  createdLinks :: "string list"
  state :: State

definition track :: "string \<Rightarrow> string \<Rightarrow> string \<Rightarrow> node \<Rightarrow> run \<Rightarrow> run" where
  "track src dst mode root r =
     r\<lparr>run_fs := root,
       createdLinks := createdLinks r @ [dst],
       state := AddManagedFile (TrimPrefix dst ''overlay/'') mode (TrimPrefix src ''.upstream/'') (state r)\<rparr>"

text \<open>
  \<open>createLink\<close>, step by step as in the source: validate the target, make its parent
  directory, deal with an existing target (\<open>os.Stat\<close>, which follows links), copy when
  the target ends in \<open>.gitignore\<close>, otherwise link by the mode. It returns the run as
  it stands and the error, if any.
\<close>

definition createLink :: "string \<Rightarrow> string \<Rightarrow> string \<Rightarrow> bool \<Rightarrow> run \<Rightarrow> run \<times> error option" where
  "createLink src dst linkMode force r =
     (case validatePath ''overlay'' (TrimPrefix dst ''overlay/'') of
        Inl e \<Rightarrow> (r, Some (InvalidTargetPath e))
      | Inr _ \<Rightarrow>
     (case MkdirAll (run_fs r) (Dir dst) of
        Inl e \<Rightarrow> (r, Some (CreateDirectoryFailed dst e))
      | Inr fs1 \<Rightarrow>
     (case (case os_Stat fs1 dst of
              Inl _ \<Rightarrow> Inr fs1
            | Inr _ \<Rightarrow>
                if \<not> force then Inl (TargetAlreadyExists dst)
                else (case os_Remove fs1 dst of
                        Inl e \<Rightarrow> Inl (RemoveExistingFailed dst e)
                      | Inr fs2 \<Rightarrow> Inr fs2)) of
        Inl e \<Rightarrow> (r\<lparr>run_fs := fs1\<rparr>, Some e)
      | Inr fs2 \<Rightarrow>
          if HasSuffix dst ''.gitignore'' then
            (case copyFile fs2 src dst of
               (fs3, Some e) \<Rightarrow> (r\<lparr>run_fs := fs3\<rparr>, Some (CopyGitignoreFailed e))
             | (fs3, None) \<Rightarrow> (track src dst ''copy'' fs3 r, None))
          else if linkMode = ''symlink'' then
            (case Rel (Dir dst) src of
               None \<Rightarrow> (r\<lparr>run_fs := fs2\<rparr>, Some (RelativePathFailed src dst))
             | Some relPath \<Rightarrow>
                 (case os_Symlink fs2 relPath dst of
                    Inl e \<Rightarrow> (r\<lparr>run_fs := fs2\<rparr>, Some (CreateSymlinkFailed src dst e))
                  | Inr fs3 \<Rightarrow> (track src dst linkMode fs3 r, None)))
          else if linkMode = ''hardlink'' then
            (case os_Link fs2 src dst of
               Inl e \<Rightarrow> (r\<lparr>run_fs := fs2\<rparr>, Some (CreateHardlinkFailed src dst e))
             | Inr fs3 \<Rightarrow> (track src dst linkMode fs3 r, None))
          else if linkMode = ''copy'' then
            (case copyFile fs2 src dst of
               (fs3, Some e) \<Rightarrow> (r\<lparr>run_fs := fs3\<rparr>, Some (CopyFailed src dst e))
             | (fs3, None) \<Rightarrow> (track src dst linkMode fs3 r, None))
          else (r\<lparr>run_fs := fs2\<rparr>, Some (UnsupportedLinkMode linkMode)))))"

text \<open>
  \<open>filepath.Walk\<close> with the function literal of \<open>CreateLinks\<close> (\<open>walkFn\<close>). Walk
  reads the names of a directory, then visits each (\<open>os.Lstat\<close>) in the file system as
  the earlier visits left it. \<open>fuel\<close> bounds the depth of the descent; running out of it
  is the error \<open>WalkFuelExhausted\<close>, which the program does not have.
\<close>

definition walkFn :: "string \<Rightarrow> string \<Rightarrow> string \<Rightarrow> bool \<Rightarrow> string \<Rightarrow> node \<Rightarrow> run \<Rightarrow> run \<times> error option" where
  "walkFn from targetBase linkMode force path info r =
     (if is_dir info then (r, None)
      else (case Rel from path of
              None \<Rightarrow> (r, Some WalkRelativePathFailed)
            | Some relPath \<Rightarrow>
                createLink path (Join [''overlay'', targetBase, relPath]) linkMode force r))"

fun walk :: "nat \<Rightarrow> (string \<Rightarrow> node \<Rightarrow> run \<Rightarrow> run \<times> error option) \<Rightarrow> string \<Rightarrow> node \<Rightarrow> run \<Rightarrow> run \<times> error option"
  and walk_names :: "nat \<Rightarrow> (string \<Rightarrow> node \<Rightarrow> run \<Rightarrow> run \<times> error option) \<Rightarrow> string \<Rightarrow> string list \<Rightarrow> run \<Rightarrow> run \<times> error option" where
  "walk 0 fn path info r = (r, Some WalkFuelExhausted)"
| "walk (Suc k) fn path info r =
     (if \<not> is_dir info then fn path info r
      else (case os_ReadDir (run_fs r) path of
              Inl e \<Rightarrow> (r, Some (WalkFailed e))
            | Inr es \<Rightarrow>
                (case fn path info r of
                   (r', Some e) \<Rightarrow> (r', Some e)
                 | (r', None) \<Rightarrow> walk_names k fn path (map fst es) r')))"
| "walk_names k fn path [] r = (r, None)"
| "walk_names k fn path (name # names) r =
     (let filename = Join [path, name]
      in case os_Lstat (run_fs r) filename of
           Inl e \<Rightarrow> (r, Some (WalkFailed e))
         | Inr fileInfo \<Rightarrow>
             (case walk k fn filename fileInfo r of
                (r', Some e) \<Rightarrow> (r', Some e)
              | (r', None) \<Rightarrow> walk_names k fn path names r'))"

definition Walk :: "nat \<Rightarrow> string \<Rightarrow> (string \<Rightarrow> node \<Rightarrow> run \<Rightarrow> run \<times> error option) \<Rightarrow> run \<Rightarrow> run \<times> error option" where
  "Walk fuel root_path fn r =
     (case os_Lstat (run_fs r) root_path of
        Inl e \<Rightarrow> (r, Some (WalkFailed e))
      | Inr info \<Rightarrow> walk fuel fn root_path info r)"

text \<open>
  The configuration (internal/config/types.go; the link mode of the configuration is
  the field \<open>ConfigLinkMode\<close>) and \<open>updateGitignore\<close>, which replaces the managed block
  of \<open>.gitignore\<close>.
\<close>

record SymlinkSpec =
  From :: string
  To :: string
  String :: string

record Config =
  Symlinks :: "SymlinkSpec list"
  ConfigLinkMode :: string

fun split_lines :: "string \<Rightarrow> string list" where
  "split_lines [] = [[]]"
| "split_lines (c # cs) =
     (if c = CHR 0x0A then [] # split_lines cs
      else (case split_lines cs of
              [] \<Rightarrow> [[c]]
            | w # ws \<Rightarrow> (c # w) # ws))"

fun join_lines :: "string list \<Rightarrow> string" where
  "join_lines [] = []"
| "join_lines [x] = x"
| "join_lines (x # y # ys) = x @ [CHR 0x0A] @ join_lines (y # ys)"

definition begin_marker :: string where
  "begin_marker = ''# BEGIN GIT-OVERLAY MANAGED BLOCK - DO NOT EDIT''"

definition end_marker :: string where
  "end_marker = ''# END GIT-OVERLAY MANAGED BLOCK''"

fun strip_block :: "bool \<Rightarrow> string list \<Rightarrow> string list \<Rightarrow> string list" where
  "strip_block inManagedBlock [] newLines = newLines"
| "strip_block inManagedBlock (line # lines) newLines =
     (if line = begin_marker then strip_block True lines newLines
      else if line = end_marker then strip_block False lines newLines
      else if \<not> inManagedBlock then strip_block inManagedBlock lines (newLines @ [line])
      else strip_block inManagedBlock lines newLines)"

definition updateGitignore :: "string list \<Rightarrow> node \<Rightarrow> errno + node" where
  "updateGitignore links root =
     (let content = begin_marker @ [CHR 0x0A] @ concat (map (\<lambda>l. l @ [CHR 0x0A]) links) @ end_marker
      in if os_Stat root ''.gitignore'' = Inl ENOENT then os_WriteFile root ''.gitignore'' content
         else (case os_ReadFile root ''.gitignore'' of
                 Inl e \<Rightarrow> Inl e
               | Inr existing \<Rightarrow>
                   let newLines = strip_block False (split_lines existing) [];
                       newLines' = (if newLines \<noteq> [] \<and> last newLines \<noteq> [] then newLines @ [[]] else newLines)
                   in os_WriteFile root ''.gitignore'' (join_lines (newLines' @ [content]))))"

text \<open>
  \<open>CreateLinks\<close>: \<open>process_link\<close> is the body of the loop over the mappings,
  \<open>process_links\<close> the loop, which stops at the first error. The registry is saved after
  the loop and after \<open>updateGitignore\<close>, on the path without error only.
\<close>

definition process_link :: "nat \<Rightarrow> string \<Rightarrow> bool \<Rightarrow> SymlinkSpec \<Rightarrow> run \<Rightarrow> run \<times> error option" where
  "process_link fuel linkMode force link r =
     (let pattern = (if String link \<noteq> [] then String link else From link);
          targetBase = (if String link \<noteq> [] then String link else To link);
          from = Join [''.upstream'', pattern];
          to = Join [''overlay'', targetBase]
      in case os_Stat (run_fs r) from of
           Inl _ \<Rightarrow> (r, Some (SourceDoesNotExist from))
         | Inr info \<Rightarrow>
             if is_dir info then
               (case Walk fuel from (walkFn from targetBase linkMode force) r of
                  (r', Some e) \<Rightarrow> (r', Some (ProcessDirectoryFailed pattern e))
                | (r', None) \<Rightarrow> (r', None))
             else
               (case createLink from to linkMode force r of
                  (r', Some e) \<Rightarrow> (r', Some (ProcessFileFailed pattern e))
                | (r', None) \<Rightarrow> (r', None)))"

fun process_links :: "nat \<Rightarrow> string \<Rightarrow> bool \<Rightarrow> SymlinkSpec list \<Rightarrow> run \<Rightarrow> run \<times> error option" where
  "process_links fuel linkMode force [] r = (r, None)"
| "process_links fuel linkMode force (link # links) r =
     (case process_link fuel linkMode force link r of
        (r', Some e) \<Rightarrow> (r', Some e)
      | (r', None) \<Rightarrow> process_links fuel linkMode force links r')"

definition CreateLinks :: "json \<Rightarrow> nat \<Rightarrow> string \<Rightarrow> bool \<Rightarrow> Config \<Rightarrow> node \<Rightarrow> node \<times> error option" where
  "CreateLinks j fuel linkModeFlag force cfg root =
     (let linkMode = (if ConfigLinkMode cfg \<noteq> [] then ConfigLinkMode cfg else linkModeFlag)
      in case LoadState j root of
           Inl e \<Rightarrow> (root, Some e)
         | Inr st \<Rightarrow>
             (case process_links fuel linkMode force (Symlinks cfg)
                     \<lparr>run_fs = root, createdLinks = [], state = st\<rparr> of
                (r, Some e) \<Rightarrow> (run_fs r, Some e)
              | (r, None) \<Rightarrow>
                  (case updateGitignore (createdLinks r) (run_fs r) of
                     Inl e \<Rightarrow> (run_fs r, Some (UpdateGitignoreFailed e))
                   | Inr root1 \<Rightarrow>
                       (case SaveState j (state r) root1 of
                          Inl e \<Rightarrow> (root1, Some e)
                        | Inr root2 \<Rightarrow> (root2, None)))))"
section \<open>The clean command (cmd/clean.go)\<close>

text \<open>
  \<open>isFullyManaged\<close> and \<open>removeEmptyDirs\<close> recurse over a directory by reading its
  entries and calling themselves on \<open>filepath.Join(dir, name)\<close> for each entry that is
  a directory. In the tree that path denotes the entry's node, so the functions are
  given the node together with the path: \<open>os.ReadDir(dir)\<close> is the entry list of the
  node, and the second read of \<open>removeEmptyDirs\<close> is the list the first pass left.
  \<open>removeEmptyDirs\<close> returns the node (\<open>None\<close> when it removed the directory, which
  needs a writable parent, \<open>pw\<close>) and the error that stopped it, if any.
\<close>

fun isFullyManaged :: "string \<Rightarrow> string list \<Rightarrow> node \<Rightarrow> bool"
  and isFullyManaged_entries :: "string \<Rightarrow> string list \<Rightarrow> (string \<times> node) list \<Rightarrow> bool" where
  "isFullyManaged path managed (Directory w es) = isFullyManaged_entries path managed es"
| "isFullyManaged path managed (File c m) = False"
| "isFullyManaged path managed (Symlink t) = False"
| "isFullyManaged_entries path managed [] = True"
| "isFullyManaged_entries path managed (entry # es) =
     (let entryPath = Join [path, fst entry]
      in case Rel ''overlay'' entryPath of
           None \<Rightarrow> False
         | Some relPath \<Rightarrow>
             if relPath \<notin> set managed then False
             else if is_dir (snd entry) \<and> \<not> isFullyManaged entryPath managed (snd entry) then False
             else isFullyManaged_entries path managed es)"

fun removeEmptyDirs :: "string \<Rightarrow> bool \<Rightarrow> node \<Rightarrow> node option \<times> error option"
  and removeEmptyDirs_entries :: "string \<Rightarrow> bool \<Rightarrow> (string \<times> node) list \<Rightarrow> (string \<times> node) list \<times> error option" where
  "removeEmptyDirs dir pw (Directory w es) =
     (case removeEmptyDirs_entries dir w es of
        (es', Some e) \<Rightarrow> (Some (Directory w es'), Some e)
      | (es', None) \<Rightarrow>
          if es' = [] \<and> dir \<noteq> ''overlay'' then
            (if pw then (None, None)
             else (Some (Directory w es'), Some (RemovingDirectory dir EACCES)))
          else (Some (Directory w es'), None))"
| "removeEmptyDirs dir pw (File c m) = (Some (File c m), Some (ReadingDirectory dir ENOTDIR))"
| "removeEmptyDirs dir pw (Symlink t) = (Some (Symlink t), Some (ReadingDirectory dir ENOTDIR))"
| "removeEmptyDirs_entries dir w [] = ([], None)"
| "removeEmptyDirs_entries dir w (entry # es) =
     (if is_dir (snd entry) then
        (case removeEmptyDirs (Join [dir, fst entry]) w (snd entry) of
           (c', Some e) \<Rightarrow> ((case c' of None \<Rightarrow> es | Some c \<Rightarrow> (fst entry, c) # es), Some e)
         | (c', None) \<Rightarrow>
             (case removeEmptyDirs_entries dir w es of
                (es', e) \<Rightarrow> ((case c' of None \<Rightarrow> es' | Some c \<Rightarrow> (fst entry, c) # es'), e)))
      else (case removeEmptyDirs_entries dir w es of (es', e) \<Rightarrow> (entry # es', e)))"

definition removeEmptyDirs_overlay :: "node \<Rightarrow> node \<times> error option" where
  "removeEmptyDirs_overlay root =
     (case resolve root ''overlay'' True of
        Inl e \<Rightarrow> (root, Some (ReadingDirectory ''overlay'' e))
      | Inr loc \<Rightarrow>
          (case get root loc of
             None \<Rightarrow> (root, Some (ReadingDirectory ''overlay'' ENOENT))
           | Some n \<Rightarrow>
               (case removeEmptyDirs ''overlay'' (parent_writable root loc) n of
                  (n', e) \<Rightarrow> (put root loc n', e))))"

text \<open>
  The main loop of clean: \<open>clean_path\<close> is its body for one managed path. A failure
  of \<open>os.Lstat\<close> other than "does not exist" leaves \<open>info\<close> nil, and \<open>info.IsDir()\<close>
  panics. \<open>clean\<close> returns the tree it leaves and the error or the number removed.
\<close>

record clean_run =
  clean_fs :: node
  clean_state :: State
  removed :: nat

definition clean_path :: "string list \<Rightarrow> string \<Rightarrow> clean_run \<Rightarrow> error + clean_run" where
  "clean_path managed relPath c =
     (let fullPath = Join [''overlay'', relPath]
      in case os_Lstat (clean_fs c) fullPath of
           Inl e \<Rightarrow>
             if e = ENOENT then Inr (c\<lparr>clean_state := RemoveManagedFile relPath (clean_state c)\<rparr>)
             else Inl (NilFileInfoPanic fullPath)
         | Inr info \<Rightarrow>
             if \<not> is_dir info then
               (case os_Remove (clean_fs c) fullPath of
                  Inr root' \<Rightarrow>
                    Inr (c\<lparr>clean_fs := root', removed := removed c + 1,
                           clean_state := RemoveManagedFile relPath (clean_state c)\<rparr>)
                | Inl _ \<Rightarrow> Inr (c\<lparr>clean_state := RemoveManagedFile relPath (clean_state c)\<rparr>))
             else if isFullyManaged fullPath managed info then
               (case os_RemoveAll (clean_fs c) fullPath of
                  (root', None) \<Rightarrow>
                    Inr (c\<lparr>clean_fs := root', removed := removed c + 1,
                           clean_state := RemoveManagedFile relPath (clean_state c)\<rparr>)
                | (root', Some _) \<Rightarrow>
                    Inr (c\<lparr>clean_fs := root',
                           clean_state := RemoveManagedFile relPath (clean_state c)\<rparr>))
             else Inr c)"

fun clean_paths :: "string list \<Rightarrow> string list \<Rightarrow> clean_run \<Rightarrow> clean_run \<times> error option" where
  "clean_paths managed [] c = (c, None)"
| "clean_paths managed (relPath # rest) c =
     (case clean_path managed relPath c of
        Inl e \<Rightarrow> (c, Some e)
      | Inr c' \<Rightarrow> clean_paths managed rest c')"

definition clean :: "json \<Rightarrow> node \<Rightarrow> node \<times> (error + nat)" where
  "clean j root =
     (if os_Stat root ''overlay'' = Inl ENOENT then (root, Inl OverlayDirectoryMissing)
      else case LoadState j root of
             Inl e \<Rightarrow> (root, Inl e)
           | Inr st \<Rightarrow>
               (case clean_paths (managedPaths st) (sortedPaths st)
                       \<lparr>clean_fs = root, clean_state = st, removed = 0\<rparr> of
                  (c, Some e) \<Rightarrow> (clean_fs c, Inl e)
                | (c, None) \<Rightarrow>
                    (let st' = fold RemoveManagedFile (managedPaths st) (clean_state c)
                     in case removeEmptyDirs_overlay (clean_fs c) of
                          (root', Some e) \<Rightarrow> (root', Inl (CleanupEmptyDirsFailed e))
                        | (root', None) \<Rightarrow>
                            (case SaveState j st' root' of
                               Inl e \<Rightarrow> (root', Inl e)
                             | Inr root'' \<Rightarrow> (root'', Inr (removed c))))))"



text \<open>
  A notion for the statements about repeated runs. \<open>workdir_ok\<close>: the tree is a working
  directory as the program expects it: a directory that lists its entries in name order,
  in which \<open>overlay\<close>, when present, is a directory and the registry file, when present,
  a regular file (neither is a link).
\<close>

definition workdir_ok :: "node \<Rightarrow> bool" where
  "workdir_ok root =
     (is_dir root \<and> sorted_wrt (<) (map fst (entries root))
      \<and> (case dir_child root ''overlay'' of None \<Rightarrow> True | Some n \<Rightarrow> is_dir n)
      \<and> (case dir_child root ''.git-overlay.state.json'' of
            None \<Rightarrow> True
          | Some (File c m) \<Rightarrow> True
          | Some _ \<Rightarrow> False))"
section \<open>Example trees\<close>



definition ex_entry :: ManagedFile where
  "ex_entry = \<lparr>Path = ''a.txt'', LinkMode = ''copy'', Source = ''a.txt''\<rparr>"



definition ex_block :: string where
  "ex_block = begin_marker @ [CHR 0x0A] @ ''overlay/a.txt'' @ [CHR 0x0A] @ end_marker"


definition ex_tree_locked :: node where
  "ex_tree_locked =
     Directory True
       [(''overlay'',
         Directory True [(''locked'', Directory False [(''f.txt'', File ''managed'' 420)])])]"

definition ex_tree_stale :: node where
  "ex_tree_stale =
     Directory True
       [(''.upstream'', Directory True [(''a.txt'', File ''new'' 420)]),
        (''overlay'', Directory True [(''a.txt'', Symlink ''../.upstream/old.txt'')])]"

definition ex_tree_stale_copied :: node where
  "ex_tree_stale_copied =
     Directory True
       [(''.upstream'', Directory True [(''a.txt'', File ''new'' 420), (''old.txt'', File ''new'' 420)]),
        (''overlay'', Directory True [(''a.txt'', Symlink ''../.upstream/old.txt'')])]"

definition ex_run :: "node \<Rightarrow> run" where
  "ex_run root = \<lparr>run_fs = root, createdLinks = [], state = \<lparr>ManagedFiles = []\<rparr>\<rparr>"

definition ex_clean_run :: clean_run where
  "ex_clean_run =
     \<lparr>clean_fs = ex_tree_locked,
      clean_state = \<lparr>ManagedFiles = [\<lparr>Path = ''locked/f.txt'', LinkMode = ''copy'', Source = ''f.txt''\<rparr>]\<rparr>,
      removed = 0\<rparr>"


definition ex_tree_ignore_stale :: node where
  "ex_tree_ignore_stale =
     Directory True
       [(''.upstream'', Directory True [(''.gitignore'', File ''*.log'' 420)]),
        (''overlay'', Directory True [(''.gitignore'', Symlink ''gone.txt'')])]"

definition ex_tree_ignore_stale_copied :: node where
  "ex_tree_ignore_stale_copied =
     Directory True
       [(''.upstream'', Directory True [(''.gitignore'', File ''*.log'' 420)]),
        (''overlay'',
         Directory True [(''.gitignore'', Symlink ''gone.txt''), (''gone.txt'', File ''*.log'' 420)])]"

definition ex_state_mixed :: State where
  "ex_state_mixed =
     \<lparr>ManagedFiles =
        [\<lparr>Path = ''a'', LinkMode = ''symlink'', Source = ''a''\<rparr>,
         \<lparr>Path = ''c/d/e'', LinkMode = ''symlink'', Source = ''c/d/e''\<rparr>,
         \<lparr>Path = ''b'', LinkMode = ''copy'', Source = ''b''\<rparr>,
         \<lparr>Path = ''a/b'', LinkMode = ''copy'', Source = ''a/b''\<rparr>,
         \<lparr>Path = ''a/c'', LinkMode = ''copy'', Source = ''a/c''\<rparr>]\<rparr>"

text \<open>
  A stand-in for \<open>encoding/json\<close> on the examples: one line for each entry, its three
  fields separated by tabs. It reads back what it writes when no field holds a tab or a
  line feed.
\<close>

fun split_tabs :: "string \<Rightarrow> string list" where
  "split_tabs [] = [[]]"
| "split_tabs (c # cs) =
     (if c = CHR 0x09 then [] # split_tabs cs
      else (case split_tabs cs of
              [] \<Rightarrow> [[c]]
            | w # ws \<Rightarrow> (c # w) # ws))"

fun ex_parse :: "string list \<Rightarrow> ManagedFile list option" where
  "ex_parse [] = None"
| "ex_parse [l] = (if l = [] then Some [] else None)"
| "ex_parse (l # l' # ls) =
     (case split_tabs l of
        [p, m, s] \<Rightarrow>
          (case ex_parse (l' # ls) of
             None \<Rightarrow> None
           | Some fs \<Rightarrow> Some (\<lparr>Path = p, LinkMode = m, Source = s\<rparr> # fs))
      | _ \<Rightarrow> None)"

definition ex_json :: json where
  "ex_json =
     \<lparr>MarshalIndent =
        (\<lambda>s. concat (map (\<lambda>f. Path f @ [CHR 0x09] @ LinkMode f @ [CHR 0x09] @ Source f @ [CHR 0x0A])
                        (ManagedFiles s))),
      Unmarshal =
        (\<lambda>data. case ex_parse (split_lines data) of
                   None \<Rightarrow> None
                 | Some fs \<Rightarrow> Some \<lparr>ManagedFiles = fs\<rparr>)\<rparr>"

definition ex_registry :: "State \<Rightarrow> string \<times> node" where
  "ex_registry s = (''.git-overlay.state.json'', File (MarshalIndent ex_json s) 420)"

definition ex_tree_old :: node where
  "ex_tree_old =
     Directory True
       [ex_registry \<lparr>ManagedFiles = [ex_entry\<lparr>Path := ''old''\<rparr>]\<rparr>,
        (''.upstream'', Directory True [(''a.txt'', File ''upstream'' 420)]),
        (''overlay'', Directory True [])]"



definition ex_tree_locked_saved :: node where
  "ex_tree_locked_saved =
     Directory True
       [ex_registry \<lparr>ManagedFiles = [\<lparr>Path = ''locked/f.txt'', LinkMode = ''copy'', Source = ''f.txt''\<rparr>]\<rparr>,
        (''overlay'',
         Directory True [(''locked'', Directory False [(''f.txt'', File ''managed'' 420)])])]"

definition ex_tree_locked_cleaned :: node where
  "ex_tree_locked_cleaned =
     Directory True
       [ex_registry \<lparr>ManagedFiles = []\<rparr>,
        (''overlay'',
         Directory True [(''locked'', Directory False [(''f.txt'', File ''managed'' 420)])])]"

definition ex_tree_linked_saved :: node where
  "ex_tree_linked_saved =
     Directory True
       [ex_registry \<lparr>ManagedFiles = [\<lparr>Path = ''a.txt'', LinkMode = ''symlink'', Source = ''a.txt''\<rparr>]\<rparr>,
        (''.gitignore'', File ex_block 420),
        (''.upstream'', Directory True [(''a.txt'', File ''upstream'' 420)]),
        (''overlay'',
         Directory True [(''a.txt'', Symlink ''../.upstream/a.txt''), (''keep'', Directory True [])])]"

definition ex_tree_cleaned :: node where
  "ex_tree_cleaned =
     Directory True
       [ex_registry \<lparr>ManagedFiles = []\<rparr>,
        (''.gitignore'', File ex_block 420),
        (''.upstream'', Directory True [(''a.txt'', File ''upstream'' 420)]),
        (''overlay'', Directory True [])]"

definition ex_cfg_registry :: Config where
  "ex_cfg_registry =
     \<lparr>Symlinks = [\<lparr>From = ''a.txt'', To = ''../.git-overlay.state.json'', String = []\<rparr>,
                  \<lparr>From = [], To = [], String = ''missing.txt''\<rparr>],
      ConfigLinkMode = []\<rparr>"

definition ex_tree_old_clobbered :: node where
  "ex_tree_old_clobbered =
     Directory True
       [(''.git-overlay.state.json'', File ''upstream'' 420),
        (''.upstream'', Directory True [(''a.txt'', File ''upstream'' 420)]),
        (''overlay'', Directory True [])]"
section \<open>Properties of the registry\<close>

lemma remove_loop_filter_take:
  "n \<le> length fs \<Longrightarrow>
   remove_loop path n fs = filter (\<lambda>f. Path f \<noteq> path) (take n fs) @ drop n fs"
proof (induction n arbitrary: fs)
  case 0
  then show ?case by simp
next
  case (Suc n)
  then have n: "n < length fs" by simp
  show ?case
  proof (cases "Path (fs ! n) = path")
    case True
    have "remove_loop path (Suc n) fs = remove_loop path n (take n fs @ drop (Suc n) fs)"
      using True by simp
    also have "\<dots> = filter (\<lambda>f. Path f \<noteq> path) (take n fs) @ drop (Suc n) fs"
      using n by (subst Suc.IH) (simp_all add: min_def)
    finally show ?thesis
      using True n by (simp add: take_Suc_conv_app_nth)
  next
    case False
    have "remove_loop path (Suc n) fs = remove_loop path n fs"
      using False by simp
    also have "\<dots> = filter (\<lambda>f. Path f \<noteq> path) (take n fs) @ drop n fs"
      using n by (subst Suc.IH) simp_all
    finally show ?thesis
      using False n by (simp add: take_Suc_conv_app_nth Cons_nth_drop_Suc)
  qed
qed

lemma remove_loop_filter:
  "remove_loop path (length fs) fs = filter (\<lambda>f. Path f \<noteq> path) fs"
  by (simp add: remove_loop_filter_take)

lemma ManagedFiles_Remove:
  "ManagedFiles (RemoveManagedFile path s) = filter (\<lambda>f. Path f \<noteq> path) (ManagedFiles s)"
  by (simp add: RemoveManagedFile_def remove_loop_filter)

lemma ManagedFiles_Add:
  "ManagedFiles (AddManagedFile path m src s) =
     filter (\<lambda>f. Path f \<noteq> path) (ManagedFiles s) @ [\<lparr>Path = path, LinkMode = m, Source = src\<rparr>]"
  by (simp add: AddManagedFile_def remove_loop_filter)

lemma distinct_map_filter_Path:
  "distinct (map Path fs) \<Longrightarrow> distinct (map Path (filter P fs))"
  by (induction fs) auto

lemma unique_paths_Remove: "unique_paths s \<Longrightarrow> unique_paths (RemoveManagedFile path s)"
  by (simp add: unique_paths_def ManagedFiles_Remove distinct_map_filter_Path)

lemma unique_paths_Add: "unique_paths s \<Longrightarrow> unique_paths (AddManagedFile path m src s)"
  by (auto simp: unique_paths_def ManagedFiles_Add distinct_map_filter_Path)

lemma unique_paths_op: "unique_paths s \<Longrightarrow> unique_paths (apply_registry_op x s)"
  by (cases x) (simp_all add: unique_paths_Add unique_paths_Remove)

lemma unique_paths_ops: "unique_paths s \<Longrightarrow> unique_paths (apply_registry_ops xs s)"
  by (induction xs arbitrary: s) (simp_all add: unique_paths_op)

lemma filter_Path_absent:
  "path \<notin> Path ` set fs \<Longrightarrow> filter (\<lambda>f. Path f \<noteq> path) fs = fs"
  by (induction fs) auto

text \<open>
  Claim C8. The registry holds at most one entry per path: a registry without duplicate
  paths (the empty one of a first run in particular) has none after any sequence of
  \<open>AddManagedFile\<close> and \<open>RemoveManagedFile\<close> calls; after an upsert of \<open>path\<close> the
  entries with that path are exactly the new one (its link mode and source), the other
  entries are kept in their order; and removing a path that has no entry changes nothing.
\<close>

theorem registry_unique_paths:
  "unique_paths (apply_registry_ops ops \<lparr>ManagedFiles = []\<rparr>)
   \<and> (unique_paths s \<longrightarrow> unique_paths (apply_registry_ops ops s))
   \<and> filter (\<lambda>f. Path f = path) (ManagedFiles (AddManagedFile path m src s))
        = [\<lparr>Path = path, LinkMode = m, Source = src\<rparr>]
   \<and> filter (\<lambda>f. Path f \<noteq> path) (ManagedFiles (AddManagedFile path m src s))
        = filter (\<lambda>f. Path f \<noteq> path) (ManagedFiles s)
   \<and> IsManagedFile path (AddManagedFile path m src s)
        = Some \<lparr>Path = path, LinkMode = m, Source = src\<rparr>
   \<and> (path \<notin> Path ` set (ManagedFiles s) \<longrightarrow> RemoveManagedFile path s = s)"
proof -
  have e: "unique_paths \<lparr>ManagedFiles = []\<rparr>"
    by (simp add: unique_paths_def)
  have look: "IsManagedFile_loop path (filter (\<lambda>f. Path f \<noteq> path) fs @ [\<lparr>Path = path, LinkMode = m, Source = src\<rparr>])
      = Some \<lparr>Path = path, LinkMode = m, Source = src\<rparr>" for fs
    by (induction fs) simp_all
  have absent: "path \<notin> Path ` set (ManagedFiles s) \<Longrightarrow> RemoveManagedFile path s = s"
    by (simp add: RemoveManagedFile_def remove_loop_filter filter_Path_absent)
  show ?thesis
    using unique_paths_ops [OF e] unique_paths_ops [of s ops] look absent
    by (simp add: ManagedFiles_Add IsManagedFile_def)
qed

theorem registry_unique_paths_witness:
  "unique_paths \<lparr>ManagedFiles = [\<lparr>Path = ''a'', LinkMode = ''copy'', Source = ''a''\<rparr>]\<rparr>
   \<and> ManagedFiles (apply_registry_ops
          [Upsert ''a'' ''symlink'' ''s/a'', Upsert ''b'' ''copy'' ''b'', Remove ''c'',
           Upsert ''a'' ''hardlink'' ''t/a'']
          \<lparr>ManagedFiles = [\<lparr>Path = ''a'', LinkMode = ''copy'', Source = ''a''\<rparr>]\<rparr>)
       = [\<lparr>Path = ''b'', LinkMode = ''copy'', Source = ''b''\<rparr>,
          \<lparr>Path = ''a'', LinkMode = ''hardlink'', Source = ''t/a''\<rparr>]
   \<and> unique_paths (apply_registry_ops
          [Upsert ''a'' ''symlink'' ''s/a'', Upsert ''b'' ''copy'' ''b'', Remove ''c'',
           Upsert ''a'' ''hardlink'' ''t/a'']
          \<lparr>ManagedFiles = [\<lparr>Path = ''a'', LinkMode = ''copy'', Source = ''a''\<rparr>]\<rparr>)
   \<and> ''c'' \<notin> Path ` set [\<lparr>Path = ''a'', LinkMode = ''copy'', Source = ''a''\<rparr>]
   \<and> RemoveManagedFile ''c'' \<lparr>ManagedFiles = [\<lparr>Path = ''a'', LinkMode = ''copy'', Source = ''a''\<rparr>]\<rparr>
       = \<lparr>ManagedFiles = [\<lparr>Path = ''a'', LinkMode = ''copy'', Source = ''a''\<rparr>]\<rparr>"
proof -
  let ?s = "\<lparr>ManagedFiles = [\<lparr>Path = ''a'', LinkMode = ''copy'', Source = ''a''\<rparr>]\<rparr>"
  have u: "unique_paths ?s"
    by (simp add: unique_paths_def)
  have a: "''c'' \<notin> Path ` set (ManagedFiles ?s)"
    by simp
  have run: "ManagedFiles (apply_registry_ops
          [Upsert ''a'' ''symlink'' ''s/a'', Upsert ''b'' ''copy'' ''b'', Remove ''c'',
           Upsert ''a'' ''hardlink'' ''t/a''] ?s)
       = [\<lparr>Path = ''b'', LinkMode = ''copy'', Source = ''b''\<rparr>,
          \<lparr>Path = ''a'', LinkMode = ''hardlink'', Source = ''t/a''\<rparr>]"
    by (simp add: ManagedFiles_Add ManagedFiles_Remove)
  from registry_unique_paths [of "[Upsert ''a'' ''symlink'' ''s/a'', Upsert ''b'' ''copy'' ''b'', Remove ''c'',
           Upsert ''a'' ''hardlink'' ''t/a'']" ?s "''c''" "''copy''" "''c''"]
  have "unique_paths (apply_registry_ops
          [Upsert ''a'' ''symlink'' ''s/a'', Upsert ''b'' ''copy'' ''b'', Remove ''c'',
           Upsert ''a'' ''hardlink'' ''t/a''] ?s)"
    and "RemoveManagedFile ''c'' ?s = ?s"
    using u a by blast+
  then show ?thesis
    using u a run by simp
qed

section \<open>Properties of the visiting order of clean\<close>

lemma less_path_irrefl: "\<not> less_path p p"
  by (simp add: less_path_def)

lemma less_path_total: "p \<noteq> q \<Longrightarrow> less_path p q \<or> less_path q p"
  by (auto simp: less_path_def Let_def)

lemma less_path_trans: "less_path p q \<Longrightarrow> less_path q r \<Longrightarrow> less_path p r"
  by (auto simp: less_path_def Let_def split: if_splits)

lemma less_path_asym: "less_path p q \<Longrightarrow> \<not> less_path q p"
  by (auto simp: less_path_def Let_def split: if_splits)

lemma set_insert_by: "set (insert_by lt x ys) = insert x (set ys)"
  by (induction ys) auto

lemma distinct_insert_by: "distinct (insert_by lt x ys) = (x \<notin> set ys \<and> distinct ys)"
  by (induction ys) (auto simp: set_insert_by)

lemma sorted_insert_by_less_path:
  "sorted_wrt less_path ys \<Longrightarrow> x \<notin> set ys \<Longrightarrow> sorted_wrt less_path (insert_by less_path x ys)"
proof (induction ys)
  case Nil
  then show ?case by simp
next
  case (Cons y ys)
  show ?case
  proof (cases "less_path y x")
    case True
    then show ?thesis
      using Cons by (auto simp: set_insert_by)
  next
    case False
    then have xy: "less_path x y"
      using Cons.prems(2) less_path_total [of x y] by auto
    then have "\<forall>z\<in>set ys. less_path x z"
      using Cons.prems(1) less_path_trans by auto
    then show ?thesis
      using False xy Cons.prems(1) by simp
  qed
qed

lemma set_sort_slice: "set (sort_slice lt xs) = set xs"
  by (induction xs) (simp_all add: sort_slice_def set_insert_by)

lemma distinct_sort_slice: "distinct xs \<Longrightarrow> distinct (sort_slice lt xs)"
proof (induction xs)
  case Nil
  then show ?case by (simp add: sort_slice_def)
next
  case (Cons x xs)
  then have "x \<notin> set (sort_slice lt xs)" "distinct (sort_slice lt xs)"
    by (simp_all add: set_sort_slice)
  then have "distinct (insert_by lt x (sort_slice lt xs))"
    by (simp add: distinct_insert_by)
  then show ?case by (simp add: sort_slice_def)
qed

lemma sorted_sort_slice:
  "distinct xs \<Longrightarrow> sorted_wrt less_path (sort_slice less_path xs)"
proof (induction xs)
  case Nil
  then show ?case by (simp add: sort_slice_def)
next
  case (Cons x xs)
  then have "x \<notin> set (sort_slice less_path xs)"
    by (simp add: set_sort_slice)
  with Cons have "sorted_wrt less_path (insert_by less_path x (sort_slice less_path xs))"
    by (simp add: sorted_insert_by_less_path)
  then show ?case by (simp add: sort_slice_def)
qed

lemma sorted_less_path_unique:
  "sorted_wrt less_path xs \<Longrightarrow> sorted_wrt less_path ys \<Longrightarrow> set xs = set ys \<Longrightarrow> xs = ys"
proof (induction xs arbitrary: ys)
  case Nil
  then show ?case by simp
next
  case (Cons x xs)
  then obtain y ys' where ys: "ys = y # ys'"
    by (cases ys) auto
  have xy: "x = y"
  proof (rule ccontr)
    assume ne: "x \<noteq> y"
    then have "x \<in> set ys'" "y \<in> set xs"
      using Cons.prems(3) ys by auto
    then have "less_path y x" "less_path x y"
      using Cons.prems(1,2) ys by auto
    then show False
      using less_path_asym by blast
  qed
  have "x \<notin> set xs" "y \<notin> set ys'"
    using Cons.prems(1,2) ys less_path_irrefl by auto
  then have "set xs = set ys'"
    using Cons.prems(3) ys xy by auto
  then have "xs = ys'"
    using Cons.IH [of ys'] Cons.prems(1,2) ys by simp
  then show ?case
    using xy ys by simp
qed

text \<open>
  The order in which Go iterates over the map does not matter: two enumerations of the
  same key set sort to the same slice.
\<close>

lemma sort_slice_unique:
  "distinct ks \<Longrightarrow> distinct ks' \<Longrightarrow> set ks = set ks' \<Longrightarrow>
   sort_slice less_path ks = sort_slice less_path ks'"
  by (rule sorted_less_path_unique) (simp_all add: sorted_sort_slice set_sort_slice)

lemma depth_append: "depth (a @ b) = depth a + depth b"
  by (induction a) (simp_all add: depth_def)

lemma nested_under_depth:
  assumes "nested_under child anc"
  shows "depth anc < depth child"
proof -
  from assms have t: "take (length anc + 1) child = anc @ ''/''"
    by (simp add: nested_under_def)
  have "(anc @ ''/'') @ drop (length anc + 1) child = child"
    by (subst t [symmetric]) (rule append_take_drop_id)
  then have "depth child = depth (anc @ ''/'') + depth (drop (length anc + 1) child)"
    using depth_append [of "anc @ ''/''" "drop (length anc + 1) child"] by simp
  then show ?thesis
    by (simp add: depth_append) (simp add: depth_def)
qed

lemma sorted_wrt_before:
  assumes s: "sorted_wrt less_path zs" and c: "c \<in> set zs" and a: "a \<in> set zs"
    and lt: "less_path c a"
  shows "\<exists>pre mid post. zs = pre @ c # mid @ a # post"
proof -
  from c obtain pre ys where zs: "zs = pre @ c # ys"
    by (meson split_list)
  have ne: "a \<noteq> c"
    using lt less_path_irrefl by auto
  have "a \<notin> set pre"
  proof
    assume "a \<in> set pre"
    then have "less_path a c"
      using s zs by (auto simp: sorted_wrt_append)
    then show False
      using lt less_path_asym by blast
  qed
  then have "a \<in> set ys"
    using a zs ne by auto
  then obtain mid post where "ys = mid @ a # post"
    by (meson split_list)
  then show ?thesis
    using zs by blast
qed

lemma sorted_less_path_nth:
  assumes "sorted_wrt less_path xs" "i < j" "j < length xs"
  shows "count_list (xs ! j) (CHR ''/'') < count_list (xs ! i) (CHR ''/'')
     \<or> (count_list (xs ! i) (CHR ''/'') = count_list (xs ! j) (CHR ''/'') \<and> xs ! j < xs ! i)"
proof -
  have "less_path (xs ! i) (xs ! j)"
    using assms by (simp add: sorted_wrt_iff_nth_less)
  then show ?thesis
    by (auto simp: less_path_def depth_def Let_def split: if_splits)
qed

section \<open>Properties of the path functions\<close>

lemma split_sep_nonempty: "split_sep p \<noteq> []"
  by (induction p) (auto split: list.splits)

lemma split_sep_append: "split_sep (a @ CHR ''/'' # b) = split_sep a @ split_sep b"
  by (induction a) (auto simp: split_sep_nonempty split: list.splits)

lemma split_sep_no_slash: "s \<in> set (split_sep p) \<Longrightarrow> CHR ''/'' \<notin> set s"
proof (induction p arbitrary: s)
  case Nil
  then show ?case by simp
next
  case (Cons c cs)
  show ?case
  proof (cases "c = CHR ''/''")
    case True
    then show ?thesis using Cons by auto
  next
    case False
    obtain w ws where w: "split_sep cs = w # ws"
      using split_sep_nonempty [of cs] by (cases "split_sep cs") auto
    then show ?thesis using Cons False by auto
  qed
qed

lemma split_sep_no_slash_id: "CHR ''/'' \<notin> set x \<Longrightarrow> split_sep x = [x]"
  by (induction x) auto

lemma split_sep_join_sep:
  "xs \<noteq> [] \<Longrightarrow> \<forall>x\<in>set xs. CHR ''/'' \<notin> set x \<Longrightarrow> split_sep (join_sep xs) = xs"
proof (induction xs rule: join_sep.induct)
  case 1
  then show ?case by simp
next
  case (2 x)
  then show ?case by (simp add: split_sep_no_slash_id)
next
  case (3 x y ys)
  then show ?case by (simp add: split_sep_append split_sep_no_slash_id)
qed

lemma ok_stack_all_dd: "\<forall>x\<in>set out. x = ''..'' \<Longrightarrow> \<not> r \<Longrightarrow> ok_stack r out"
  by (induction out) auto

lemma clean_step_skip: "seg = '''' \<or> seg = ''.'' \<Longrightarrow> clean_step r seg out = out"
  by (simp add: clean_step_def)

lemma clean_step_name: "seg \<noteq> '''' \<Longrightarrow> seg \<noteq> ''.'' \<Longrightarrow> seg \<noteq> ''..'' \<Longrightarrow> clean_step r seg out = seg # out"
  by (simp add: clean_step_def)

lemma clean_step_dd_Nil: "clean_step r ''..'' [] = (if r then [] else [''..''])"
  by (simp add: clean_step_def)

lemma clean_step_dd_Cons:
  "clean_step r ''..'' (t # rest) = (if t \<noteq> ''..'' then rest else if r then t # rest else ''..'' # t # rest)"
  by (simp add: clean_step_def)

lemma ok_stack_tl: "ok_stack r (t # rest) \<Longrightarrow> ok_stack r rest"
  by (cases "t = ''..''") (simp_all add: ok_stack_all_dd)

lemma ok_stack_step:
  assumes ok: "ok_stack r out" and ns: "CHR ''/'' \<notin> set seg"
  shows "ok_stack r (clean_step r seg out)"
proof -
  consider (skip) "seg = '''' \<or> seg = ''.''" | (dd) "seg = ''..''"
    | (name) "seg \<noteq> ''''" "seg \<noteq> ''.''" "seg \<noteq> ''..''"
    by blast
  then show ?thesis
  proof cases
    case skip
    then show ?thesis using ok by (simp add: clean_step_skip)
  next
    case dd
    show ?thesis
    proof (cases out)
      case Nil
      then show ?thesis using dd by (simp add: clean_step_dd_Nil)
    next
      case (Cons t rest)
      show ?thesis
      proof (cases "t = ''..''")
        case True
        then show ?thesis using ok Cons dd by (simp add: clean_step_dd_Cons)
      next
        case False
        then show ?thesis using ok_stack_tl [of r t rest] ok Cons dd by (simp add: clean_step_dd_Cons)
      qed
    qed
  next
    case name
    then show ?thesis using ok ns by (simp add: clean_step_name proper_def)
  qed
qed

lemma ok_stack_fold:
  "ok_stack r out \<Longrightarrow> \<forall>s\<in>set segs. CHR ''/'' \<notin> set s \<Longrightarrow> ok_stack r (fold (clean_step r) segs out)"
proof (induction segs arbitrary: out)
  case Nil
  then show ?case by simp
next
  case (Cons s segs)
  have "ok_stack r (clean_step r s out)"
    using Cons.prems by (intro ok_stack_step) simp_all
  then show ?case
    using Cons by simp
qed

lemma ok_stack_clean_elems: "ok_stack (IsAbs p) (rev (clean_elems p))"
  by (simp add: clean_elems_def ok_stack_fold split_sep_no_slash)

lemma ok_stack_elem: "ok_stack r out \<Longrightarrow> x \<in> set out \<Longrightarrow> x \<noteq> '''' \<and> x \<noteq> ''.'' \<and> CHR ''/'' \<notin> set x"
proof (induction out)
  case Nil
  then show ?case by simp
next
  case (Cons t rest)
  show ?case
  proof (cases "t = ''..''")
    case True
    then have "x = ''..''" using Cons.prems by auto
    then show ?thesis by simp
  next
    case False
    then show ?thesis using Cons by (auto simp: proper_def)
  qed
qed

lemma fold_clean_step_rev: "ok_stack r out \<Longrightarrow> fold (clean_step r) (rev out) [] = out"
proof (induction out)
  case Nil
  then show ?case by simp
next
  case (Cons t rest)
  then have rest: "ok_stack r rest"
    using ok_stack_tl by blast
  have "fold (clean_step r) (rev (t # rest)) [] = clean_step r t (fold (clean_step r) (rev rest) [])"
    by simp
  also have "\<dots> = clean_step r t rest"
    using Cons.IH rest by simp
  also have "\<dots> = t # rest"
  proof (cases "t = ''..''")
    case True
    then show ?thesis using Cons.prems by (cases rest) (simp_all add: clean_step_dd_Nil clean_step_dd_Cons)
  next
    case False
    then show ?thesis using Cons.prems by (simp add: clean_step_name proper_def)
  qed
  finally show ?case .
qed

lemma fold_clean_step_skip:
  "fold (clean_step r) (filter (\<lambda>s. s \<noteq> '''' \<and> s \<noteq> ''.'') segs) out = fold (clean_step r) segs out"
  by (induction segs arbitrary: out) (auto simp: clean_step_skip)

lemma HasPrefix_slash: "HasPrefix p ''/'' = (p \<noteq> [] \<and> hd p = CHR ''/'')"
  by (cases p) (simp_all add: HasPrefix_def)

lemma elems_join_sep:
  assumes "\<forall>x\<in>set es. x \<noteq> '''' \<and> x \<noteq> ''.'' \<and> CHR ''/'' \<notin> set x"
  shows "elems (join_sep es) = es"
proof (cases "es = []")
  case True
  then show ?thesis by (simp add: elems_def)
next
  case False
  then have "split_sep (join_sep es) = es"
    using assms by (simp add: split_sep_join_sep)
  then show ?thesis
    using assms by (simp add: elems_def filter_id_conv)
qed

lemma elems_slash: "elems (CHR ''/'' # s) = elems s"
  by (simp add: elems_def)

lemma join_sep_hd: "es \<noteq> [] \<Longrightarrow> hd es \<noteq> [] \<Longrightarrow> join_sep es \<noteq> [] \<and> hd (join_sep es) = hd (hd es)"
  by (induction es rule: join_sep.induct) auto

lemma stack_elems_ok:
  "ok_stack r (rev es) \<Longrightarrow> \<forall>x\<in>set es. x \<noteq> '''' \<and> x \<noteq> ''.'' \<and> CHR ''/'' \<notin> set x"
  using ok_stack_elem [of r "rev es"] by auto

lemma elems_dot: "elems ''.'' = []"
  by (simp add: elems_def)

lemma elems_render: 
  assumes "ok_stack r (rev es)"
  shows "elems (render r es) = es"
proof -
  have e: "elems (join_sep es) = es"
    using stack_elems_ok [OF assms] by (rule elems_join_sep)
  show ?thesis
  proof (cases r)
    case True
    then show ?thesis using e by (simp add: render_def elems_slash)
  next
    case False
    then show ?thesis using e by (cases "es = []") (simp_all add: render_def elems_dot)
  qed
qed

lemma IsAbs_render: 
  assumes ok: "ok_stack r (rev es)"
  shows "IsAbs (render r es) = r"
proof (cases r)
  case True
  then show ?thesis by (simp add: render_def IsAbs_def HasPrefix_def)
next
  case False
  show ?thesis
  proof (cases es)
    case Nil
    then show ?thesis using False by (simp add: render_def IsAbs_def HasPrefix_def)
  next
    case (Cons e es')
    then have e: "e \<noteq> []" "CHR ''/'' \<notin> set e"
      using stack_elems_ok [OF ok] by auto
    then have "hd e \<noteq> CHR ''/''"
      by (cases e) auto
    moreover have "join_sep es \<noteq> [] \<and> hd (join_sep es) = hd e"
      using join_sep_hd [of es] Cons e by simp
    ultimately show ?thesis
      using False Cons by (simp add: render_def IsAbs_def HasPrefix_slash)
  qed
qed

lemma elems_Clean: "elems (Clean p) = clean_elems p"
  using elems_render [OF ok_stack_clean_elems [of p, unfolded rev_rev_ident]] ok_stack_clean_elems [of p]
  by (simp add: Clean_def elems_render)

lemma IsAbs_Clean: "IsAbs (Clean p) = IsAbs p"
  using ok_stack_clean_elems [of p] by (simp add: Clean_def IsAbs_render)

lemma clean_elems_fold_elems: "clean_elems p = rev (fold (clean_step (IsAbs p)) (elems p) [])"
  unfolding clean_elems_def elems_def by (simp only: fold_clean_step_skip)

lemma clean_elems_Clean: "clean_elems (Clean p) = clean_elems p"
proof -
  have "clean_elems (Clean p) = rev (fold (clean_step (IsAbs (Clean p))) (elems (Clean p)) [])"
    by (rule clean_elems_fold_elems)
  also have "\<dots> = rev (fold (clean_step (IsAbs p)) (rev (rev (clean_elems p))) [])"
    by (simp only: elems_Clean IsAbs_Clean rev_rev_ident)
  also have "\<dots> = rev (rev (clean_elems p))"
    by (simp only: fold_clean_step_rev [OF ok_stack_clean_elems [of p]])
  finally show ?thesis by simp
qed

lemma Clean_Clean: "Clean (Clean p) = Clean p"
proof -
  have "Clean (Clean p) = render (IsAbs (Clean p)) (clean_elems (Clean p))"
    by (rule Clean_def)
  also have "\<dots> = render (IsAbs p) (clean_elems p)"
    by (simp only: clean_elems_Clean IsAbs_Clean)
  also have "\<dots> = Clean p"
    by (simp only: Clean_def)
  finally show ?thesis .
qed

lemma Clean_eq_iff: "Clean p = Clean q \<longleftrightarrow> IsAbs p = IsAbs q \<and> clean_elems p = clean_elems q"
proof
  assume "Clean p = Clean q"
  then have "IsAbs (Clean p) = IsAbs (Clean q)" "elems (Clean p) = elems (Clean q)"
    by simp_all
  then show "IsAbs p = IsAbs q \<and> clean_elems p = clean_elems q"
    by (simp only: IsAbs_Clean elems_Clean)
next
  assume "IsAbs p = IsAbs q \<and> clean_elems p = clean_elems q"
  then show "Clean p = Clean q"
    by (simp only: Clean_def)
qed

lemma Clean_Join2: "Clean (Join [base, path]) = Clean (joined base path)"
proof -
  consider (a) "base \<noteq> ''''" | (b) "base = ''''" "path \<noteq> ''''" | (c) "base = ''''" "path = ''''"
    by blast
  then show ?thesis
  proof cases
    case a
    then show ?thesis by (simp add: Join_def joined_def Clean_Clean)
  next
    case b
    then show ?thesis by (simp add: Join_def joined_def Clean_Clean)
  next
    case c
    then show ?thesis by (simp add: Join_def joined_def)
  qed
qed

lemma IsAbs_joined: "\<not> IsAbs path \<Longrightarrow> IsAbs (joined base path) = IsAbs base"
  by (cases base) (simp_all add: joined_def IsAbs_def HasPrefix_def)

lemma fold_clean_step_empty: "fold (clean_step r) (split_sep '''') acc = acc"
  by (simp add: clean_step_skip)

lemma clean_elems_joined:
  assumes "\<not> IsAbs path"
  shows "clean_elems (joined base path)
         = rev (fold (clean_step (IsAbs base)) (split_sep path) (rev (clean_elems base)))"
proof (cases "base = ''''")
  case True
  then show ?thesis
    using assms by (simp add: joined_def clean_elems_def IsAbs_def HasPrefix_def clean_step_skip)
next
  case False
  have "split_sep (base @ ''/'' @ path) = split_sep base @ split_sep path"
    using split_sep_append [of base path] by simp
  then show ?thesis
    using False IsAbs_joined [OF assms, of base]
    by (simp add: clean_elems_def) (simp add: joined_def)
qed

lemma fold_clean_step_names:
  "\<forall>s\<in>set segs. s \<noteq> ''..'' \<Longrightarrow>
   fold (clean_step r) segs acc = rev (filter (\<lambda>s. s \<noteq> '''' \<and> s \<noteq> ''.'') segs) @ acc"
proof (induction segs arbitrary: acc)
  case Nil
  then show ?case by simp
next
  case (Cons s segs)
  show ?case
  proof (cases "s = '''' \<or> s = ''.''")
    case True
    then show ?thesis using Cons by (auto simp: clean_step_skip)
  next
    case False
    then show ?thesis using Cons by (simp add: clean_step_name)
  qed
qed

lemma clean_elems_joined_names:
  assumes "\<not> IsAbs path" "''..'' \<notin> set (split_sep path)"
  shows "clean_elems (joined base path) = clean_elems base @ elems path"
proof -
  have "\<forall>s\<in>set (split_sep path). s \<noteq> ''..''"
    using assms(2) by auto
  then show ?thesis
    using clean_elems_joined [OF assms(1), of base]
    by (simp add: fold_clean_step_names elems_def)
qed

lemma strip_common_Nil: "strip_common [] R = ([], R)"
  by (cases R) simp_all

lemma strip_common_prefix: "strip_common S (S @ R) = ([], R)"
  by (induction S) (simp_all add: strip_common_Nil)

lemma strip_common_not_prefix: "take (length S) T \<noteq> S \<Longrightarrow> fst (strip_common S T) \<noteq> []"
  by (induction S T rule: strip_common.induct) auto

lemma HasPrefix_join_sep_dd:
  "x \<noteq> [] \<Longrightarrow> HasPrefix (join_sep (x # rest)) ''..'' = HasPrefix x ''..''"
proof (cases rest)
  case Nil
  then show ?thesis by simp
next
  case (Cons y ys)
  assume "x \<noteq> []"
  then obtain c cs where x: "x = c # cs" by (cases x) auto
  show ?thesis
    using Cons x by (cases cs) (auto simp: HasPrefix_def)
qed

lemma HasPrefix_join_sep_replicate:
  "b \<noteq> [] \<Longrightarrow> HasPrefix (join_sep (replicate (length b) ''..'' @ t)) ''..''"
proof -
  assume "b \<noteq> []"
  then obtain n where "length b = Suc n" by (cases b) auto
  then have "replicate (length b) ''..'' @ t = ''..'' # (replicate n ''..'' @ t)"
    by simp
  then show ?thesis
    using HasPrefix_join_sep_dd [of "''..''" "replicate n ''..'' @ t"] by (simp add: HasPrefix_def)
qed

lemma Rel_Clean:
  assumes "IsAbs p = IsAbs q"
  shows "Rel (Clean p) (Clean q) =
     (if clean_elems q = clean_elems p then Some ''.''
      else (case strip_common (clean_elems p) (clean_elems q) of
              (b', t') \<Rightarrow>
                if b' \<noteq> [] \<and> hd b' = ''..'' then None
                else Some (join_sep (replicate (length b') ''..'' @ t'))))"
proof -
  have eq: "Clean q = Clean p \<longleftrightarrow> clean_elems q = clean_elems p"
    using assms Clean_eq_iff [of q p] by simp
  have ab: "IsAbs (Clean p) = IsAbs (Clean q)"
    using assms by (simp only: IsAbs_Clean)
  show ?thesis
    unfolding Rel_def Let_def Clean_Clean using eq ab by (simp only: elems_Clean if_False simp_thms)
qed

lemma clean_elems_nonempty_elem: "x \<in> set (clean_elems p) \<Longrightarrow> x \<noteq> []"
  using ok_stack_elem [OF ok_stack_clean_elems [of p], of x] by simp

lemma validatePath_iff:
  assumes rel: "\<not> IsAbs path"
  shows "validatePath base path = Inr () \<longleftrightarrow>
     \<not> Contains path ''../''
     \<and> take (length (clean_elems base)) (clean_elems (joined base path)) = clean_elems base
     \<and> (case drop (length (clean_elems base)) (clean_elems (joined base path)) of
          [] \<Rightarrow> True | x # _ \<Rightarrow> \<not> HasPrefix x ''..'')"
proof -
  let ?S = "clean_elems base" and ?T = "clean_elems (joined base path)"
  have abs: "IsAbs base = IsAbs (joined base path)"
    using IsAbs_joined [OF rel] by simp
  have v: "validatePath base path =
      (case Rel (Clean base) (Clean (joined base path)) of
         None \<Rightarrow> Inl InvalidPath
       | Some r \<Rightarrow> if HasPrefix r ''..'' \<or> Contains path ''../'' then Inl (PathEscapesBase path) else Inr ())"
    using rel by (simp add: validatePath_def Clean_Join2 Clean_Clean)
  note R = Rel_Clean [OF abs]
  consider (same) "?T = ?S" | (inside) "?T \<noteq> ?S" "take (length ?S) ?T = ?S"
    | (outside) "take (length ?S) ?T \<noteq> ?S"
    by fastforce
  then show ?thesis
  proof cases
    case same
    then show ?thesis
      using v R by (simp add: HasPrefix_def)
  next
    case inside
    define Rs where "Rs = drop (length ?S) ?T"
    have T: "?T = ?S @ Rs"
      using inside(2) append_take_drop_id [of "length ?S" ?T] by (simp add: Rs_def)
    then have "Rs \<noteq> []"
      using inside(1) by auto
    then obtain x rest where Rs: "Rs = x # rest"
      by (cases Rs) auto
    have "x \<in> set ?T"
      using T Rs by simp
    then have x: "x \<noteq> []"
      by (rule clean_elems_nonempty_elem)
    have "strip_common ?S ?T = ([], x # rest)"
      using T Rs strip_common_prefix [of ?S Rs] by simp
    then have "Rel (Clean base) (Clean (joined base path)) = Some (join_sep (x # rest))"
      using R inside(1) by simp
    then show ?thesis
      using v inside(2) Rs HasPrefix_join_sep_dd [OF x, of rest]
      by (simp add: Rs_def [symmetric])
  next
    case outside
    obtain b' t' where st: "strip_common ?S ?T = (b', t')"
      by (cases "strip_common ?S ?T")
    then have b: "b' \<noteq> []"
      using strip_common_not_prefix [OF outside] by simp
    have ne: "?T \<noteq> ?S"
      using outside by auto
    have "validatePath base path \<noteq> Inr ()"
    proof (cases "hd b' = ''..''")
      case True
      then show ?thesis using v R st b ne by simp
    next
      case False
      then show ?thesis
        using v R st b ne HasPrefix_join_sep_replicate [OF b, of t'] by simp
    qed
    then show ?thesis
      using outside by simp
  qed
qed

section \<open>Properties of the path validator\<close>

lemma below_base_alt:
  "below_base base path = drop (length (clean_elems base)) (clean_elems (joined base path))"
  by (simp add: below_base_def elems_Clean Clean_Join2)

lemma inside_base_alt:
  "inside_base base path =
     (take (length (clean_elems base)) (clean_elems (joined base path)) = clean_elems base
      \<and> (case drop (length (clean_elems base)) (clean_elems (joined base path)) of
            [] \<Rightarrow> True | x # _ \<Rightarrow> x \<noteq> ''..''))"
  by (simp add: inside_base_def below_base_alt elems_Clean Clean_Join2)

lemma dotdot_name_alt:
  "dotdot_name base path =
     (case drop (length (clean_elems base)) (clean_elems (joined base path)) of
        [] \<Rightarrow> False | x # _ \<Rightarrow> x \<noteq> ''..'' \<and> HasPrefix x ''..'')"
  by (simp add: dotdot_name_def below_base_alt)

lemma Contains_rejected: "Contains path ''../'' \<Longrightarrow> validatePath base path \<noteq> Inr ()"
  by (simp add: validatePath_def Let_def split: option.splits)

lemma outside_rejected:
  assumes "\<not> inside_base base path"
  shows "validatePath base path \<noteq> Inr ()"
proof (cases "IsAbs path")
  case True
  then show ?thesis by (simp add: validatePath_def)
next
  case False
  show ?thesis
    using assms validatePath_iff [OF False, of base]
    by (auto simp: inside_base_alt HasPrefix_def split: list.splits)
qed

lemma inside_accepted:
  assumes rel: "\<not> IsAbs path" and i: "inside_base base path"
    and nc: "\<not> Contains path ''../''" and nd: "\<not> dotdot_name base path"
  shows "validatePath base path = Inr ()"
  using validatePath_iff [OF rel, of base] i nc nd
  by (auto simp: inside_base_alt dotdot_name_alt split: list.splits)

text \<open>
  Claim C1 (amended). For every base and path: \<open>validatePath\<close> rejects absolute paths,
  every path whose cleaned join with the base lies lexically outside the base, and also
  every path that contains the substring \<open>../\<close>, wherever it leads; it accepts every
  relative path without the substring \<open>../\<close> whose cleaned join with the base stays
  inside the base - the forms with a leading \<open>./\<close>, with repeated separators, with
  inner \<open>.\<close> elements and with a \<open>..\<close> at the very end among them - unless the first
  name below the base begins with two dots.
\<close>

theorem validatePath_amended:
  "(IsAbs path \<longrightarrow> validatePath base path = Inl (AbsolutePathNotAllowed path))
   \<and> (Contains path ''../'' \<longrightarrow> validatePath base path \<noteq> Inr ())
   \<and> (\<not> inside_base base path \<longrightarrow> validatePath base path \<noteq> Inr ())
   \<and> (\<not> IsAbs path \<and> inside_base base path \<and> \<not> Contains path ''../''
        \<and> \<not> dotdot_name base path \<longrightarrow> validatePath base path = Inr ())"
  using Contains_rejected outside_rejected inside_accepted
  by (simp add: validatePath_def)

theorem validatePath_amended_witness:
  "\<not> IsAbs ''./sub//dir/./test.txt'' \<and> inside_base ''overlay'' ''./sub//dir/./test.txt''
   \<and> \<not> Contains ''./sub//dir/./test.txt'' ''../''
   \<and> \<not> dotdot_name ''overlay'' ''./sub//dir/./test.txt''
   \<and> validatePath ''overlay'' ''./sub//dir/./test.txt'' = Inr ()
   \<and> \<not> IsAbs ''a/b/..'' \<and> inside_base ''overlay'' ''a/b/..'' \<and> \<not> Contains ''a/b/..'' ''../''
   \<and> \<not> dotdot_name ''overlay'' ''a/b/..''
   \<and> validatePath ''overlay'' ''a/b/..'' = Inr ()
   \<and> IsAbs ''/etc/passwd''
   \<and> validatePath ''overlay'' ''/etc/passwd'' = Inl (AbsolutePathNotAllowed ''/etc/passwd'')
   \<and> Contains ''sub/../../x'' ''../'' \<and> validatePath ''overlay'' ''sub/../../x'' \<noteq> Inr ()
   \<and> \<not> inside_base ''overlay'' ''..'' \<and> validatePath ''overlay'' ''..'' \<noteq> Inr ()
   \<and> \<not> inside_base ''.'' ''..'' \<and> validatePath ''.'' ''..'' \<noteq> Inr ()
   \<and> \<not> inside_base '''' ''..'' \<and> validatePath '''' ''..'' \<noteq> Inr ()"
proof -
  have a1: "\<not> IsAbs ''./sub//dir/./test.txt''"
    and a2: "inside_base ''overlay'' ''./sub//dir/./test.txt''"
    and a3: "\<not> Contains ''./sub//dir/./test.txt'' ''../''"
    and a4: "\<not> dotdot_name ''overlay'' ''./sub//dir/./test.txt''"
    by code_simp+
  have b1: "\<not> IsAbs ''a/b/..''" and b2: "inside_base ''overlay'' ''a/b/..''"
    and b3: "\<not> Contains ''a/b/..'' ''../''" and b4: "\<not> dotdot_name ''overlay'' ''a/b/..''"
    by code_simp+
  have h3: "IsAbs ''/etc/passwd''"
    by code_simp
  have h4: "Contains ''sub/../../x'' ''../''"
    by code_simp
  have h5: "\<not> inside_base ''overlay'' ''..''"
    by code_simp
  have h6: "\<not> inside_base ''.'' ''..''"
    by code_simp
  have h7: "\<not> inside_base '''' ''..''"
    by code_simp
  note acc = validatePath_amended [THEN conjunct2, THEN conjunct2, THEN conjunct2, rule_format]
  note out = validatePath_amended [THEN conjunct2, THEN conjunct2, THEN conjunct1, rule_format]
  have c1: "validatePath ''overlay'' ''./sub//dir/./test.txt'' = Inr ()"
    by (rule acc) (intro conjI a1 a2 a3 a4)
  have c2: "validatePath ''overlay'' ''a/b/..'' = Inr ()"
    by (rule acc) (intro conjI b1 b2 b3 b4)
  have c3: "validatePath ''overlay'' ''/etc/passwd'' = Inl (AbsolutePathNotAllowed ''/etc/passwd'')"
    by (rule validatePath_amended [THEN conjunct1, rule_format]) (rule h3)
  have c4: "validatePath ''overlay'' ''sub/../../x'' \<noteq> Inr ()"
    by (rule validatePath_amended [THEN conjunct2, THEN conjunct1, rule_format]) (rule h4)
  have c5: "validatePath ''overlay'' ''..'' \<noteq> Inr ()"
    by (rule out) (rule h5)
  have c6: "validatePath ''.'' ''..'' \<noteq> Inr ()"
    by (rule out) (rule h6)
  have c7: "validatePath '''' ''..'' \<noteq> Inr ()"
    by (rule out) (rule h7)
  show ?thesis
    by (intro conjI) (rule a1 a2 a3 a4 b1 b2 b3 b4 c1 c2 h3 c3 h4 c4 h5 c5 h6 c6 h7 c7)+
qed

text \<open>
  The claim as stated fails: \<open>a/../b\<close> joined to \<open>overlay\<close> cleans to \<open>overlay/b\<close>,
  inside the base, and is rejected.
\<close>

theorem validatePath_inner_dotdot_rejected:
  "Clean (Join [''overlay'', ''a/../b'']) = ''overlay/b''
   \<and> inside_base ''overlay'' ''a/../b''
   \<and> validatePath ''overlay'' ''a/../b'' = Inl (PathEscapesBase ''a/../b'')"
  by code_simp
section \<open>Properties of the file tree\<close>

text \<open>
  Reading a location after a write: \<open>put\<close> at a location changes what \<open>get\<close> finds
  there and nothing beside it.
\<close>

lemma map_of_del_entry: "map_of (del_entry es s) k = (if k = s then None else map_of es k)"
  by (induction es) (auto simp: del_entry_def)

lemma map_of_ins_entry: "map_of (ins_entry es s c) k = (if k = s then Some c else map_of es k)"
  by (induction es) auto

lemma map_of_set_entry: "map_of (set_entry es s v) k = (if k = s then v else map_of es k)"
  by (cases v) (simp_all add: set_entry_def map_of_del_entry map_of_ins_entry)

lemma dir_child_Directory [simp]: "dir_child (Directory w es) s = map_of es s"
  by (simp add: dir_child_def)

lemma dir_child_File [simp]: "dir_child (File c m) s = None"
  by (simp add: dir_child_def)

lemma dir_child_Symlink [simp]: "dir_child (Symlink t) s = None"
  by (simp add: dir_child_def)

lemma get_snoc: "get r (p @ [s]) = (case get r p of None \<Rightarrow> None | Some d \<Rightarrow> dir_child d s)"
  by (induction p arbitrary: r) (auto split: option.splits)

lemma get_put_same:
  assumes "p \<noteq> []" "get r (butlast p) = Some d" "is_dir d"
  shows "get (put r p v) p = v"
  using assms
proof (induction p arbitrary: r)
  case Nil
  then show ?case by simp
next
  case (Cons s rest)
  show ?case
  proof (cases rest)
    case Nil
    then have "r = d" using Cons.prems by simp
    then obtain w es where "r = Directory w es"
      using Cons.prems(3) by (cases r) auto
    then show ?thesis
      using Nil by (cases v) (simp_all add: map_of_set_entry)
  next
    case (Cons s' rest')
    then have bl: "butlast (s # rest) = s # butlast rest"
      by simp
    then obtain c where c: "dir_child r s = Some c" "get c (butlast rest) = Some d"
      using Cons.prems(2) by (auto split: option.splits)
    then obtain w es where r: "r = Directory w es"
      by (cases r) auto
    have "get (put c rest v) rest = v"
      using Cons.IH [of c] c(2) Cons.prems(3) Cons by simp
    then show ?thesis
      using r c(1) Cons by (simp add: map_of_set_entry)
  qed
qed

lemma get_parent_dir:
  assumes "get r p = Some x" "p \<noteq> []"
  shows "\<exists>d. get r (butlast p) = Some d \<and> is_dir d"
proof -
  obtain q s where p: "p = q @ [s]"
    using assms(2) by (metis rev_exhaust)
  then obtain d where d: "get r q = Some d" "dir_child d s = Some x"
    using assms(1) by (auto simp: get_snoc split: option.splits)
  then have "is_dir d"
    by (cases d) auto
  then show ?thesis
    using p d by simp
qed

lemma put_Directory_other_child:
  "s' \<noteq> s \<Longrightarrow> dir_child (put (Directory w es) (s # rest) v) s' = map_of es s'"
  by (cases "rest = []"; cases "map_of es s") (simp_all add: map_of_set_entry)

lemma get_put_other:
  assumes "take (length p) q \<noteq> p" "get r q = Some x" "\<not> is_dir x"
  shows "get (put r p v) q = Some x"
  using assms
proof (induction p arbitrary: r q)
  case Nil
  then show ?case by simp
next
  case (Cons s rest)
  show ?case
  proof (cases r)
    case (File c m)
    then show ?thesis using Cons.prems by simp
  next
    case (Symlink t)
    then show ?thesis using Cons.prems by simp
  next
    case (Directory w es)
    show ?thesis
    proof (cases q)
      case Nil
      then have "x = r" using Cons.prems(2) by simp
      then have False using Cons.prems(3) Directory by simp
      then show ?thesis ..
    next
      case q: (Cons s' q')
      show ?thesis
      proof (cases "s' = s")
        case False
        then have "dir_child (put r (s # rest) v) s' = dir_child r s'"
          using Directory put_Directory_other_child [of s' s w es rest v] by simp
        then have "get (put r (s # rest) v) q = get r q"
          using q by simp
        then show ?thesis
          using Cons.prems(2) by simp
      next
        case True
        then obtain c where c: "map_of es s = Some c" "get c q' = Some x"
          using Cons.prems(2) Directory q by (auto split: option.splits)
        have ne: "rest \<noteq> []"
          using Cons.prems(1) q True by auto
        have "take (length rest) q' \<noteq> rest"
          using Cons.prems(1) q True by simp
        then have "get (put c rest v) q' = Some x"
          using Cons.IH [of q' c] c(2) Cons.prems(3) by simp
        then show ?thesis
          using Directory q True c(1) ne by (simp add: map_of_set_entry)
      qed
    qed
  qed
qed

lemma get_append: "get r (p @ x) = (case get r p of None \<Rightarrow> None | Some n \<Rightarrow> get n x)"
  by (induction p arbitrary: r) (auto split: option.splits)

lemma get_below_file:
  assumes "get r p = Some n" "\<not> is_dir n" "take (length p) q = p" "q \<noteq> p"
  shows "get r q = None"
proof -
  have "q = p @ drop (length p) q"
    using assms(3) append_take_drop_id [of "length p" q] by simp
  moreover have "drop (length p) q \<noteq> []"
    using assms(3,4) calculation by auto
  then obtain s x where "drop (length p) q = s # x"
    by (cases "drop (length p) q") auto
  moreover have "get n (s # x) = None"
    using assms(2) by (cases n) simp_all
  ultimately show ?thesis
    using assms(1) get_append [of r p "s # x"] by simp
qed

lemma get_put_file:
  assumes "get r p = Some x \<or> (get r p = None \<and> parent_writable r p)"
  shows "get (put r p (Some n)) p = Some n"
proof (cases "p = []")
  case True
  then show ?thesis by simp
next
  case False
  have "\<exists>d. get r (butlast p) = Some d \<and> is_dir d"
  proof (cases "get r p")
    case None
    then have "parent_writable r p" using assms by simp
    then obtain d where "get r (butlast p) = Some d" "dir_writable d"
      by (auto simp: parent_writable_def split: option.splits)
    then show ?thesis by (cases d) auto
  next
    case (Some y)
    then show ?thesis using get_parent_dir False by blast
  qed
  then show ?thesis
    using get_put_same [OF False] by blast
qed

lemma os_Create_result:
  assumes "os_Create root p = Inr (root1, loc)"
  shows "resolve root p True = Inr loc \<and> (\<exists>m. get root1 loc = Some (File [] m))"
proof -
  from assms have r: "resolve root p True = Inr loc"
    by (auto simp: os_Create_def split: sum.splits option.splits node.splits if_splits)
  show ?thesis
  proof (cases "get root loc")
    case None
    then have "parent_writable root loc" "root1 = put root loc (Some (File [] 420))"
      using assms r by (auto simp: os_Create_def split: if_splits)
    then show ?thesis
      using r None get_put_file [of root loc _ "File [] 420"] by auto
  next
    case (Some n)
    then obtain c m where n: "n = File c m" and "root1 = put root loc (Some (File [] m))"
      using assms r by (cases n) (auto simp: os_Create_def)
    then show ?thesis
      using r Some get_put_file [of root loc n "File [] m"] by auto
  qed
qed

lemma copyFile_copies:
  assumes "copyFile root src dst = (root', None)"
  shows "\<exists>sloc dloc c m. resolve root src True = Inr sloc \<and> resolve root dst True = Inr dloc
      \<and> get root' dloc = Some (File c m) \<and> get root' sloc = Some (File c m)"
proof -
  from assms obtain sloc where s: "resolve root src True = Inr sloc"
    by (auto simp: copyFile_def split: sum.splits)
  from assms s obtain root1 dloc where c: "os_Create root dst = Inr (root1, dloc)"
    by (auto simp: copyFile_def split: sum.splits option.splits)
  from assms s c obtain cn m where f: "get root1 sloc = Some (File cn m)"
    and r': "root' = put root1 dloc (Some (File cn m))"
    by (auto simp: copyFile_def split: sum.splits option.splits node.splits)
  from os_Create_result [OF c] obtain m0 where d: "resolve root dst True = Inr dloc"
    and e: "get root1 dloc = Some (File [] m0)"
    by blast
  have dd: "get root' dloc = Some (File cn m)"
    using r' e get_put_file [of root1 dloc "File [] m0" "File cn m"] by simp
  have ss: "get root' sloc = Some (File cn m)"
  proof (cases "sloc = dloc")
    case True
    then show ?thesis using dd by simp
  next
    case False
    have "take (length dloc) sloc \<noteq> dloc"
    proof
      assume "take (length dloc) sloc = dloc"
      then have "get root1 sloc = None"
        using get_below_file [OF e _ _ False] by simp
      then show False using f by simp
    qed
    then show ?thesis
      using r' f get_put_other [of dloc sloc root1 "File cn m"] by simp
  qed
  show ?thesis
    using s d dd ss by blast
qed

text \<open>
  Writing a regular file changes the kind of no other place, so every path that led
  somewhere before the write leads to the same place after it; in particular a file
  that was written is read back.
\<close>

lemma kind_at_Nil: "kind_at r [] = (case r of File c m \<Rightarrow> KFile | Symlink t \<Rightarrow> KLink t | Directory w es \<Rightarrow> KDir)"
  by (simp add: kind_at_def)

lemma kind_at_Cons_Directory: "kind_at (Directory w es) (s # q) = (case map_of es s of None \<Rightarrow> KAbsent | Some c \<Rightarrow> kind_at c q)"
  by (simp add: kind_at_def split: option.splits)

lemma kind_at_Cons_File: "kind_at (File c m) (s # q) = KAbsent"
  by (simp add: kind_at_def)

lemma kind_at_Cons_Symlink: "kind_at (Symlink t) (s # q) = KAbsent"
  by (simp add: kind_at_def)

lemma kind_at_put_file:
  assumes "q \<noteq> p" "kind_at r p = KAbsent \<or> kind_at r p = KFile"
  shows "kind_at (put r p (Some (File c' m'))) q = kind_at r q"
  using assms
proof (induction p arbitrary: r q)
  case Nil
  then obtain c m where r: "r = File c m"
    by (cases r) (simp_all add: kind_at_Nil)
  obtain s qs where "q = s # qs"
    using Nil.prems(1) by (cases q) simp_all
  then show ?case
    using r by (simp add: kind_at_Cons_File)
next
  case (Cons s ps)
  show ?case
  proof (cases r)
    case (File c m)
    then show ?thesis by simp
  next
    case (Symlink t)
    then show ?thesis by simp
  next
    case (Directory w es)
    show ?thesis
    proof (cases q)
      case Nil
      then show ?thesis
        using Directory by (simp add: kind_at_Nil split: option.splits)
    next
      case (Cons t qs)
      note q = Cons
      show ?thesis
      proof (cases "t = s")
        case False
        then show ?thesis
          using Directory q
          by (simp add: kind_at_Cons_Directory map_of_set_entry split: option.splits)
      next
        case True
        have ne: "qs \<noteq> ps"
          using Cons.prems(1) q True by simp
        show ?thesis
        proof (cases "ps = []")
          case True
          then obtain u us where qs: "qs = u # us"
            using ne by (cases qs) simp_all
          have "map_of es s = None \<or> (\<exists>c m. map_of es s = Some (File c m))"
            using Cons.prems(2) Directory True
            by (auto simp: kind_at_Cons_Directory kind_at_Nil split: option.splits node.splits)
          then have "kind_at r q = KAbsent"
            using Directory q \<open>t = s\<close> qs by (auto simp: kind_at_Cons_Directory kind_at_Cons_File)
          moreover have "kind_at (put r (s # ps) (Some (File c' m'))) q = KAbsent"
            using Directory q \<open>t = s\<close> qs True
            by (simp add: kind_at_Cons_Directory map_of_set_entry kind_at_Cons_File)
          ultimately show ?thesis by simp
        next
          case False
          show ?thesis
          proof (cases "map_of es s")
            case None
            then show ?thesis using Directory False by simp
          next
            case (Some c)
            have k: "kind_at c ps = KAbsent \<or> kind_at c ps = KFile"
              using Cons.prems(2) Directory Some by (simp add: kind_at_Cons_Directory)
            have "kind_at (put c ps (Some (File c' m'))) qs = kind_at c qs"
              using Cons.IH [OF ne k] .
            then show ?thesis
              using Directory q \<open>t = s\<close> False Some
              by (simp add: kind_at_Cons_Directory map_of_set_entry)
          qed
        qed
      qed
    qed
  qed
qed

lemma kind_at_put_file_same:
  assumes "kind_at r p = KAbsent \<or> kind_at r p = KFile"
  shows "kind_at (put r p (Some (File c' m'))) p = KAbsent \<or> kind_at (put r p (Some (File c' m'))) p = KFile"
  using assms
proof (induction p arbitrary: r)
  case Nil
  then show ?case by (simp add: kind_at_Nil)
next
  case (Cons s ps)
  show ?case
  proof (cases r)
    case (File c m)
    then show ?thesis by (simp add: kind_at_Cons_File)
  next
    case (Symlink t)
    then show ?thesis by (simp add: kind_at_Cons_Symlink)
  next
    case (Directory w es)
    show ?thesis
    proof (cases "ps = []")
      case True
      then show ?thesis
        using Directory by (simp add: kind_at_Cons_Directory map_of_set_entry kind_at_Nil)
    next
      case False
      show ?thesis
      proof (cases "map_of es s")
        case None
        then show ?thesis using Directory False by (simp add: kind_at_Cons_Directory)
      next
        case (Some c)
        have "kind_at c ps = KAbsent \<or> kind_at c ps = KFile"
          using Cons.prems Directory Some by (simp add: kind_at_Cons_Directory)
        then show ?thesis
          using Cons.IH [of c] Directory False Some
          by (simp add: kind_at_Cons_Directory map_of_set_entry)
      qed
    qed
  qed
qed

lemma namei_step:
  "namei fuel root cur (s # rest) follow =
     (if s = '''' \<or> s = ''.'' then namei fuel root cur rest follow
      else if s = ''..'' then namei fuel root (butlast cur) rest follow
      else (case kind_at root (cur @ [s]) of
              KAbsent \<Rightarrow> if rest = [] then Inr (cur @ [s]) else Inl ENOENT
            | KLink t \<Rightarrow>
                if rest = [] \<and> \<not> follow then Inr (cur @ [s])
                else (case fuel of
                        0 \<Rightarrow> Inl ELOOP
                      | Suc f \<Rightarrow>
                          namei f root (if IsAbs t then [] else cur) (split_sep t @ rest) follow)
            | KDir \<Rightarrow> namei fuel root (cur @ [s]) rest follow
            | KFile \<Rightarrow> if rest = [] then Inr (cur @ [s]) else Inl ENOTDIR))"
  by (simp add: kind_at_def split: option.splits node.splits del: get.simps)

lemma kind_at_KLink: "kind_at root q = KLink t \<longleftrightarrow> get root q = Some (Symlink t)"
  by (auto simp: kind_at_def split: option.splits node.splits)

lemma kind_at_KDir: "kind_at root q = KDir \<longleftrightarrow> (\<exists>w es. get root q = Some (Directory w es))"
  by (auto simp: kind_at_def split: option.splits node.splits)

lemma namei_same_kinds:
  "namei fuel root cur segs follow = Inr loc \<Longrightarrow>
   \<forall>q. q \<noteq> p \<longrightarrow> kind_at root' q = kind_at root q \<Longrightarrow>
   kind_at root p = KAbsent \<or> kind_at root p = KFile \<Longrightarrow>
   kind_at root' p = KAbsent \<or> kind_at root' p = KFile \<Longrightarrow>
   namei fuel root' cur segs follow = Inr loc"
proof (induction fuel root cur segs follow rule: namei.induct)
  case (1 fuel root cur follow)
  then show ?case by simp
next
  case (2 fuel root cur s rest follow)
  note r = "2.prems"(1) and o = "2.prems"(2) and a = "2.prems"(3) and b = "2.prems"(4)
  show ?case
  proof (cases "s = '''' \<or> s = ''.''")
    case True
    then have "namei fuel root cur rest follow = Inr loc"
      using r by (simp add: namei_step del: namei.simps)
    then have "namei fuel root' cur rest follow = Inr loc"
      using "2.IH"(1) [OF True] o a b by blast
    then show ?thesis
      using True by (simp add: namei_step del: namei.simps)
  next
    case skip: False
    show ?thesis
    proof (cases "s = ''..''")
      case True
      then have "namei fuel root (butlast cur) rest follow = Inr loc"
        using r skip by (simp add: namei_step del: namei.simps)
      then have "namei fuel root' (butlast cur) rest follow = Inr loc"
        using "2.IH"(2) [OF skip True] o a b by blast
      then show ?thesis
        using True skip by (simp add: namei_step del: namei.simps)
    next
      case nd: False
      have r': "(case kind_at root (cur @ [s]) of
              KAbsent \<Rightarrow> if rest = [] then Inr (cur @ [s]) else Inl ENOENT
            | KLink t \<Rightarrow>
                if rest = [] \<and> \<not> follow then Inr (cur @ [s])
                else (case fuel of
                        0 \<Rightarrow> Inl ELOOP
                      | Suc f \<Rightarrow>
                          namei f root (if IsAbs t then [] else cur) (split_sep t @ rest) follow)
            | KDir \<Rightarrow> namei fuel root (cur @ [s]) rest follow
            | KFile \<Rightarrow> if rest = [] then Inr (cur @ [s]) else Inl ENOTDIR) = Inr loc"
        using r skip nd by (simp add: namei_step del: namei.simps)
      have goal: "namei fuel root' cur (s # rest) follow =
           (case kind_at root' (cur @ [s]) of
              KAbsent \<Rightarrow> if rest = [] then Inr (cur @ [s]) else Inl ENOENT
            | KLink t \<Rightarrow>
                if rest = [] \<and> \<not> follow then Inr (cur @ [s])
                else (case fuel of
                        0 \<Rightarrow> Inl ELOOP
                      | Suc f \<Rightarrow>
                          namei f root' (if IsAbs t then [] else cur) (split_sep t @ rest) follow)
            | KDir \<Rightarrow> namei fuel root' (cur @ [s]) rest follow
            | KFile \<Rightarrow> if rest = [] then Inr (cur @ [s]) else Inl ENOTDIR)"
        using skip nd by (simp add: namei_step del: namei.simps)
      show ?thesis
      proof (cases "cur @ [s] = p")
        case True
        have "rest = [] \<and> loc = cur @ [s]"
          using r' a True by (auto split: if_splits)
        then show ?thesis
          using goal b True by auto
      next
        case False
        then have k: "kind_at root' (cur @ [s]) = kind_at root (cur @ [s])"
          using o by blast
        show ?thesis
        proof (cases "kind_at root (cur @ [s])")
          case KAbsent
          then show ?thesis using r' goal k by simp
        next
          case KFile
          then show ?thesis using r' goal k by simp
        next
          case (KLink t)
          then have g: "get root (cur @ [s]) = Some (Symlink t)"
            by (simp add: kind_at_KLink)
          show ?thesis
          proof (cases "rest = [] \<and> \<not> follow")
            case True
            then show ?thesis using r' goal k KLink by simp
          next
            case nf: False
            then obtain f where fu: "fuel = Suc f"
              using r' KLink by (cases fuel) auto
            have "namei f root (if IsAbs t then [] else cur) (split_sep t @ rest) follow = Inr loc"
              using r' KLink nf fu by simp
            then have "namei f root' (if IsAbs t then [] else cur) (split_sep t @ rest) follow = Inr loc"
              using "2.IH"(3) [OF skip nd g refl nf fu] o a b by blast
            then show ?thesis
              using goal k KLink nf fu by simp
          qed
        next
          case KDir
          then obtain w es where g: "get root (cur @ [s]) = Some (Directory w es)"
            by (auto simp: kind_at_KDir)
          have "namei fuel root (cur @ [s]) rest follow = Inr loc"
            using r' KDir by simp
          then have "namei fuel root' (cur @ [s]) rest follow = Inr loc"
            using "2.IH"(4) [OF skip nd g refl] o a b by blast
          then show ?thesis
            using goal k KDir by simp
        qed
      qed
    qed
  qed
qed

lemma put_file_twice_kinds:
  assumes "kind_at r p = KAbsent \<or> kind_at r p = KFile"
  shows "\<forall>q. q \<noteq> p \<longrightarrow> kind_at (put (put r p (Some (File c1 m1))) p (Some (File c2 m2))) q = kind_at r q"
    and "kind_at (put (put r p (Some (File c1 m1))) p (Some (File c2 m2))) p = KAbsent
       \<or> kind_at (put (put r p (Some (File c1 m1))) p (Some (File c2 m2))) p = KFile"
proof -
  note k1 = kind_at_put_file_same [OF assms, of c1 m1]
  show "\<forall>q. q \<noteq> p \<longrightarrow> kind_at (put (put r p (Some (File c1 m1))) p (Some (File c2 m2))) q = kind_at r q"
    using kind_at_put_file [OF _ k1] kind_at_put_file [OF _ assms] by simp
  show "kind_at (put (put r p (Some (File c1 m1))) p (Some (File c2 m2))) p = KAbsent
       \<or> kind_at (put (put r p (Some (File c1 m1))) p (Some (File c2 m2))) p = KFile"
    using kind_at_put_file_same [OF k1] .
qed

lemma os_Create_cases:
  assumes "os_Create root p = Inr (root1, loc)"
  shows "resolve root p True = Inr loc \<and> (kind_at root loc = KAbsent \<or> kind_at root loc = KFile)
     \<and> (\<exists>m. root1 = put root loc (Some (File [] m)) \<and> get root1 loc = Some (File [] m))"
proof -
  from assms have r: "resolve root p True = Inr loc"
    by (auto simp: os_Create_def split: sum.splits option.splits node.splits if_splits)
  show ?thesis
  proof (cases "get root loc")
    case None
    then have "parent_writable root loc" "root1 = put root loc (Some (File [] 420))"
      using assms r by (auto simp: os_Create_def split: if_splits)
    then show ?thesis
      using r None get_put_file [of root loc _ "File [] 420"] by (auto simp: kind_at_def)
  next
    case (Some n)
    then obtain c m where n: "n = File c m" and "root1 = put root loc (Some (File [] m))"
      using assms r by (cases n) (auto simp: os_Create_def)
    then show ?thesis
      using r Some get_put_file [of root loc n "File [] m"] by (auto simp: kind_at_def)
  qed
qed

lemma os_WriteFile_result:
  assumes "os_WriteFile root p data = Inr root'"
  shows "\<exists>loc m. resolve root p True = Inr loc \<and> resolve root' p True = Inr loc
     \<and> get root' loc = Some (File data m)
     \<and> (kind_at root loc = KAbsent \<or> kind_at root loc = KFile)
     \<and> (\<forall>q. q \<noteq> loc \<longrightarrow> kind_at root' q = kind_at root q)"
proof -
  from assms obtain root1 loc where c: "os_Create root p = Inr (root1, loc)"
    by (auto simp: os_WriteFile_def split: sum.splits)
  from os_Create_cases [OF c] obtain m where r: "resolve root p True = Inr loc"
    and k: "kind_at root loc = KAbsent \<or> kind_at root loc = KFile"
    and root1: "root1 = put root loc (Some (File [] m))" and g1: "get root1 loc = Some (File [] m)"
    by blast
  have root': "root' = put root1 loc (Some (File data m))"
    using assms c g1 by (simp add: os_WriteFile_def)
  have g: "get root' loc = Some (File data m)"
    using root' g1 get_put_file [of root1 loc "File [] m" "File data m"] by simp
  note K = put_file_twice_kinds [OF k, of "[]" m data m]
  have o: "\<forall>q. q \<noteq> loc \<longrightarrow> kind_at root' q = kind_at root q"
    using K(1) root' root1 by simp
  have b: "kind_at root' loc = KAbsent \<or> kind_at root' loc = KFile"
    using g by (simp add: kind_at_def)
  have ne: "p \<noteq> []"
    using r by (auto simp: resolve_def split: if_splits)
  have "namei 40 root [] (split_sep p) True = Inr loc"
    using r ne by (simp add: resolve_def)
  then have "namei 40 root' [] (split_sep p) True = Inr loc"
    using namei_same_kinds o k b by blast
  then have "resolve root' p True = Inr loc"
    using ne by (simp add: resolve_def)
  then show ?thesis
    using r g k o by blast
qed

lemma os_ReadFile_WriteFile:
  assumes "os_WriteFile root p data = Inr root'"
  shows "os_ReadFile root' p = Inr data"
  using os_WriteFile_result [OF assms]
  by (auto simp: os_ReadFile_def os_Stat_def node_at_def)

lemma resolve_same_kinds:
  assumes "resolve root q follow = Inr loc" "\<forall>x. x \<noteq> p \<longrightarrow> kind_at root' x = kind_at root x"
    "kind_at root p = KAbsent \<or> kind_at root p = KFile" "kind_at root' p = KAbsent \<or> kind_at root' p = KFile"
  shows "resolve root' q follow = Inr loc"
proof -
  have ne: "q \<noteq> []"
    using assms(1) by (auto simp: resolve_def split: if_splits)
  then have "namei 40 root [] (split_sep q) follow = Inr loc"
    using assms(1) by (simp add: resolve_def)
  then have "namei 40 root' [] (split_sep q) follow = Inr loc"
    using namei_same_kinds assms(2,3,4) by blast
  then show ?thesis
    using ne by (simp add: resolve_def)
qed

text \<open>The registry file: what \<open>SaveState\<close> wrote is what is read.\<close>

lemma SaveState_saved:
  assumes "SaveState j s root = Inr root'"
  shows "os_ReadFile root' ''.git-overlay.state.json'' = Inr (MarshalIndent j s)"
proof -
  have "os_WriteFile root ''.git-overlay.state.json'' (MarshalIndent j s) = Inr root'"
    using assms by (simp add: SaveState_def split: sum.splits)
  then show ?thesis
    by (rule os_ReadFile_WriteFile)
qed

lemma LoadState_read:
  assumes "os_ReadFile root ''.git-overlay.state.json'' = Inr data" "Unmarshal j data = Some s"
  shows "LoadState j root = Inr s"
  using assms by (simp add: LoadState_def)

section \<open>Properties of \<open>GetManagedFilesInDir\<close>\<close>

lemma GetManagedFilesInDir_loop_filter:
  "GetManagedFilesInDir_loop dir fs files
     = files @ filter (\<lambda>f. Dir (Path f) = dir \<or> Path f = dir) fs"
  by (induction fs arbitrary: files) simp_all

lemma Dir_child:
  assumes "CHR ''/'' \<notin> set name"
  shows "Dir (d @ ''/'' @ name) = Clean (d @ ''/'')"
proof -
  have "dropWhile (\<lambda>c. c \<noteq> CHR ''/'') (rev name) = []"
    using assms by (auto simp: dropWhile_eq_Nil_conv)
  then have "dropWhile (\<lambda>c. c \<noteq> CHR ''/'') (rev (d @ ''/'' @ name)) = CHR ''/'' # rev d"
    using assms by (simp add: dropWhile_append)
  then show ?thesis
    by (simp add: Dir_def)
qed

lemma Clean_trailing_slash: "d \<noteq> [] \<Longrightarrow> Clean (d @ ''/'') = Clean d"
proof -
  assume d: "d \<noteq> []"
  then have a: "IsAbs (d @ ''/'') = IsAbs d"
    by (cases d) (simp_all add: IsAbs_def HasPrefix_def)
  have "split_sep (d @ ''/'') = split_sep d @ [[]]"
    using split_sep_append [of d "[]"] by simp
  then have "clean_elems (d @ ''/'') = clean_elems d"
    using a by (simp add: clean_elems_def clean_step_skip)
  then show ?thesis
    using a by (simp add: Clean_def)
qed

lemma clean_elems_push:
  assumes d: "d \<noteq> []" and a: "proper a"
  shows "clean_elems (d @ ''/'' @ a) = clean_elems d @ [a]"
proof -
  have abs: "IsAbs (d @ ''/'' @ a) = IsAbs d"
    using d by (cases d) (simp_all add: IsAbs_def HasPrefix_def)
  have "split_sep a = [a]"
    using a by (simp add: proper_def split_sep_no_slash_id)
  then have "split_sep (d @ ''/'' @ a) = split_sep d @ [a]"
    using split_sep_append [of d a] by simp
  then show ?thesis
    using abs a by (simp add: clean_elems_def clean_step_name proper_def)
qed

lemma Dir_grandchild_neq:
  assumes d: "dir \<noteq> []" and a: "proper a" and b: "CHR ''/'' \<notin> set b"
  shows "Dir (dir @ ''/'' @ a @ ''/'' @ b) \<noteq> dir"
proof
  assume eq: "Dir (dir @ ''/'' @ a @ ''/'' @ b) = dir"
  have "Dir ((dir @ ''/'' @ a) @ ''/'' @ b) = Clean ((dir @ ''/'' @ a) @ ''/'')"
    using b by (rule Dir_child)
  also have "\<dots> = Clean (dir @ ''/'' @ a)"
    by (rule Clean_trailing_slash) simp
  finally have c: "Clean (dir @ ''/'' @ a) = dir"
    using eq by simp
  then have "Clean dir = dir"
    using Clean_Clean [of "dir @ ''/'' @ a"] by simp
  then have "elems dir = clean_elems dir"
    using elems_Clean [of dir] by simp
  moreover have "elems dir = clean_elems dir @ [a]"
    using c elems_Clean [of "dir @ ''/'' @ a"] clean_elems_push [OF d a] by simp
  ultimately show False by simp
qed

lemma Dir_child_eq:
  assumes "Clean dir = dir" "dir \<noteq> []" "CHR ''/'' \<notin> set name"
  shows "Dir (dir @ ''/'' @ name) = dir"
proof -
  have "Dir (dir @ ''/'' @ name) = Clean (dir @ ''/'')"
    using assms(3) by (rule Dir_child)
  also have "\<dots> = Clean dir"
    using assms(2) by (rule Clean_trailing_slash)
  finally show ?thesis
    using assms(1) by simp
qed

text \<open>
  Claim C4 (amended). \<open>GetManagedFilesInDir dir\<close> returns, in registry order, exactly the
  entries whose path is \<open>dir\<close> or whose parent directory (\<open>filepath.Dir\<close> of the path)
  is \<open>dir\<close>: for a cleaned \<open>dir\<close> every entry \<open>dir/name\<close> is returned, and an entry
  two levels down, \<open>dir/a/b\<close>, never is.
\<close>

theorem GetManagedFilesInDir_direct:
  "GetManagedFilesInDir dir s
     = filter (\<lambda>f. Dir (Path f) = dir \<or> Path f = dir) (ManagedFiles s)
   \<and> (\<forall>f\<in>set (ManagedFiles s). \<forall>name.
        Clean dir = dir \<and> dir \<noteq> '''' \<and> CHR ''/'' \<notin> set name \<and> Path f = dir @ ''/'' @ name
        \<longrightarrow> f \<in> set (GetManagedFilesInDir dir s))
   \<and> (\<forall>f\<in>set (ManagedFiles s). \<forall>a b.
        dir \<noteq> '''' \<and> proper a \<and> CHR ''/'' \<notin> set b \<and> Path f = dir @ ''/'' @ a @ ''/'' @ b
        \<longrightarrow> f \<notin> set (GetManagedFilesInDir dir s))"
proof -
  have flt: "GetManagedFilesInDir dir s
     = filter (\<lambda>f. Dir (Path f) = dir \<or> Path f = dir) (ManagedFiles s)"
    by (simp add: GetManagedFilesInDir_def GetManagedFilesInDir_loop_filter)
  have direct: "f \<in> set (GetManagedFilesInDir dir s)"
    if "f \<in> set (ManagedFiles s)" "Clean dir = dir" "dir \<noteq> ''''" "CHR ''/'' \<notin> set name"
      "Path f = dir @ ''/'' @ name" for f name
    using that Dir_child_eq [of dir name] by (simp add: flt)
  have deep: "f \<notin> set (GetManagedFilesInDir dir s)"
    if "dir \<noteq> ''''" "proper a" "CHR ''/'' \<notin> set b" "Path f = dir @ ''/'' @ a @ ''/'' @ b" for f a b
    using that Dir_grandchild_neq [of dir a b] by (simp add: flt)
  show ?thesis
    using flt direct deep by blast
qed

theorem GetManagedFilesInDir_direct_witness:
  "GetManagedFilesInDir ''d''
     \<lparr>ManagedFiles = [\<lparr>Path = ''d/a/b'', LinkMode = ''symlink'', Source = ''d/a/b''\<rparr>,
                      \<lparr>Path = ''d/x'', LinkMode = ''copy'', Source = ''d/x''\<rparr>,
                      \<lparr>Path = ''e'', LinkMode = ''copy'', Source = ''e''\<rparr>,
                      \<lparr>Path = ''d'', LinkMode = ''symlink'', Source = ''d''\<rparr>]\<rparr>
     = [\<lparr>Path = ''d/x'', LinkMode = ''copy'', Source = ''d/x''\<rparr>,
        \<lparr>Path = ''d'', LinkMode = ''symlink'', Source = ''d''\<rparr>]
   \<and> Clean ''d'' = ''d'' \<and> proper ''a'' \<and> CHR ''/'' \<notin> set ''b'' \<and> CHR ''/'' \<notin> set ''x''
   \<and> \<lparr>Path = ''d/x'', LinkMode = ''copy'', Source = ''d/x''\<rparr>
       \<in> set (GetManagedFilesInDir ''d''
            \<lparr>ManagedFiles = [\<lparr>Path = ''d/a/b'', LinkMode = ''symlink'', Source = ''d/a/b''\<rparr>,
                      \<lparr>Path = ''d/x'', LinkMode = ''copy'', Source = ''d/x''\<rparr>,
                      \<lparr>Path = ''e'', LinkMode = ''copy'', Source = ''e''\<rparr>,
                      \<lparr>Path = ''d'', LinkMode = ''symlink'', Source = ''d''\<rparr>]\<rparr>)
   \<and> \<lparr>Path = ''d/a/b'', LinkMode = ''symlink'', Source = ''d/a/b''\<rparr>
       \<notin> set (GetManagedFilesInDir ''d''
            \<lparr>ManagedFiles = [\<lparr>Path = ''d/a/b'', LinkMode = ''symlink'', Source = ''d/a/b''\<rparr>,
                      \<lparr>Path = ''d/x'', LinkMode = ''copy'', Source = ''d/x''\<rparr>,
                      \<lparr>Path = ''e'', LinkMode = ''copy'', Source = ''e''\<rparr>,
                      \<lparr>Path = ''d'', LinkMode = ''symlink'', Source = ''d''\<rparr>]\<rparr>)"
proof -
  let ?deep = "\<lparr>Path = ''d/a/b'', LinkMode = ''symlink'', Source = ''d/a/b''\<rparr>"
  let ?child = "\<lparr>Path = ''d/x'', LinkMode = ''copy'', Source = ''d/x''\<rparr>"
  let ?s = "\<lparr>ManagedFiles = [?deep, ?child,
                      \<lparr>Path = ''e'', LinkMode = ''copy'', Source = ''e''\<rparr>,
                      \<lparr>Path = ''d'', LinkMode = ''symlink'', Source = ''d''\<rparr>]\<rparr>"
  have c: "Clean ''d'' = ''d''" and a: "proper ''a''"
    by code_simp+
  have b: "CHR ''/'' \<notin> set ''b''" and x: "CHR ''/'' \<notin> set ''x''"
    by simp_all
  have m1: "?child \<in> set (ManagedFiles ?s)" and m2: "?deep \<in> set (ManagedFiles ?s)"
    by simp_all
  have p1: "Path ?child = ''d'' @ ''/'' @ ''x''"
    and p2: "Path ?deep = ''d'' @ ''/'' @ ''a'' @ ''/'' @ ''b''"
    by simp_all
  have ne: "''d'' \<noteq> []"
    by simp
  note T = GetManagedFilesInDir_direct [of "''d''" ?s]
  have r1: "?child \<in> set (GetManagedFilesInDir ''d'' ?s)"
    using T m1 c ne x p1 by blast
  have r2: "?deep \<notin> set (GetManagedFilesInDir ''d'' ?s)"
    using T m2 ne a b p2 by blast
  have v: "GetManagedFilesInDir ''d'' ?s
      = [?child, \<lparr>Path = ''d'', LinkMode = ''symlink'', Source = ''d''\<rparr>]"
    by code_simp
  show ?thesis
    using v c a b x r1 r2 by blast
qed

text \<open>
  The claim as stated fails: an entry nested two levels under \<open>d\<close> is not returned.
\<close>

theorem GetManagedFilesInDir_misses_nested:
  "nested_under ''d/a/b'' ''d''
   \<and> GetManagedFilesInDir ''d''
        \<lparr>ManagedFiles = [\<lparr>Path = ''d/a/b'', LinkMode = ''symlink'', Source = ''d/a/b''\<rparr>]\<rparr> = []"
  by code_simp

section \<open>Properties of \<open>createLink\<close>\<close>

subsection \<open>A target occupied by a stale link\<close>

lemma create_at_occupied:
  "os_Lstat root p = Inr n \<Longrightarrow> create_at root p n' = Inl EEXIST"
  by (auto simp: os_Lstat_def node_at_def create_at_def split: sum.splits option.splits)

lemma createLink_stale:
  assumes v: "validatePath ''overlay'' (TrimPrefix dst ''overlay/'') = Inr ()"
    and m: "MkdirAll (run_fs r) (Dir dst) = Inr fs1"
    and s: "os_Stat fs1 dst = Inl en"
  shows "createLink src dst linkMode force r =
     (if HasSuffix dst ''.gitignore'' then
        (case copyFile fs1 src dst of
           (fs3, Some e) \<Rightarrow> (r\<lparr>run_fs := fs3\<rparr>, Some (CopyGitignoreFailed e))
         | (fs3, None) \<Rightarrow> (track src dst ''copy'' fs3 r, None))
      else if linkMode = ''symlink'' then
        (case Rel (Dir dst) src of
           None \<Rightarrow> (r\<lparr>run_fs := fs1\<rparr>, Some (RelativePathFailed src dst))
         | Some relPath \<Rightarrow>
             (case os_Symlink fs1 relPath dst of
                Inl e \<Rightarrow> (r\<lparr>run_fs := fs1\<rparr>, Some (CreateSymlinkFailed src dst e))
              | Inr fs3 \<Rightarrow> (track src dst linkMode fs3 r, None)))
      else if linkMode = ''hardlink'' then
        (case os_Link fs1 src dst of
           Inl e \<Rightarrow> (r\<lparr>run_fs := fs1\<rparr>, Some (CreateHardlinkFailed src dst e))
         | Inr fs3 \<Rightarrow> (track src dst linkMode fs3 r, None))
      else if linkMode = ''copy'' then
        (case copyFile fs1 src dst of
           (fs3, Some e) \<Rightarrow> (r\<lparr>run_fs := fs3\<rparr>, Some (CopyFailed src dst e))
         | (fs3, None) \<Rightarrow> (track src dst linkMode fs3 r, None))
      else (r\<lparr>run_fs := fs1\<rparr>, Some (UnsupportedLinkMode linkMode)))"
  using v m s by (simp add: createLink_def)

text \<open>
  The existing-target test of \<open>createLink\<close> is \<open>os.Stat\<close>, which follows links. When
  the target is a symbolic link whose referent does not exist, the branch for an existing
  target is not taken: \<open>force\<close> makes no difference, no target-already-exists error is
  raised and the link is not removed. In symlink and hardlink mode the link step then
  fails on the occupied name; in copy mode, and for a \<open>.gitignore\<close> target, the step is
  \<open>copyFile\<close> on the unchanged tree.
\<close>

lemma createLink_stale_link:
  assumes v: "validatePath ''overlay'' (TrimPrefix dst ''overlay/'') = Inr ()"
    and m: "MkdirAll (run_fs r) (Dir dst) = Inr fs1"
    and l: "os_Lstat fs1 dst = Inr (Symlink t)"
    and s: "os_Stat fs1 dst = Inl ENOENT"
  shows "createLink src dst linkMode True r = createLink src dst linkMode False r
   \<and> snd (createLink src dst linkMode force r) \<noteq> Some (TargetAlreadyExists dst)
   \<and> snd (createLink src dst linkMode force r) \<noteq> Some (RemoveExistingFailed dst en)
   \<and> (\<not> HasSuffix dst ''.gitignore'' \<and> (linkMode = ''symlink'' \<or> linkMode = ''hardlink'') \<longrightarrow>
        (\<exists>e. createLink src dst linkMode force r = (r\<lparr>run_fs := fs1\<rparr>, Some e)
           \<and> (e = RelativePathFailed src dst \<or> e = CreateSymlinkFailed src dst EEXIST
                \<or> (\<exists>en'. e = CreateHardlinkFailed src dst en'))))
   \<and> (HasSuffix dst ''.gitignore'' \<or> linkMode = ''copy'' \<longrightarrow>
        fst (createLink src dst linkMode force r)
          = (case copyFile fs1 src dst of
               (fs3, Some e) \<Rightarrow> r\<lparr>run_fs := fs3\<rparr>
             | (fs3, None) \<Rightarrow> track src dst ''copy'' fs3 r))"
proof -
  note C = createLink_stale [OF v m s]
  have sym: "os_Symlink fs1 relPath dst = Inl EEXIST" for relPath
    using l by (simp add: os_Symlink_def create_at_occupied)
  have lnk: "\<exists>en'. os_Link fs1 src dst = Inl en'"
    using l by (auto simp: os_Link_def create_at_occupied split: sum.splits)
  have a: "createLink src dst linkMode True r = createLink src dst linkMode False r"
    by (simp only: C)
  have b: "snd (createLink src dst linkMode force r) \<noteq> Some (TargetAlreadyExists dst)"
    using sym lnk by (auto simp: C split: prod.splits option.splits sum.splits)
  have b': "snd (createLink src dst linkMode force r) \<noteq> Some (RemoveExistingFailed dst en)"
    using sym lnk by (auto simp: C split: prod.splits option.splits sum.splits)
  have c: "\<exists>e. createLink src dst linkMode force r = (r\<lparr>run_fs := fs1\<rparr>, Some e)
           \<and> (e = RelativePathFailed src dst \<or> e = CreateSymlinkFailed src dst EEXIST
                \<or> (\<exists>en'. e = CreateHardlinkFailed src dst en'))"
    if "\<not> HasSuffix dst ''.gitignore''" "linkMode = ''symlink'' \<or> linkMode = ''hardlink''"
    using that sym lnk by (auto simp: C split: option.splits)
  have d: "fst (createLink src dst linkMode force r)
          = (case copyFile fs1 src dst of
               (fs3, Some e) \<Rightarrow> r\<lparr>run_fs := fs3\<rparr>
             | (fs3, None) \<Rightarrow> track src dst ''copy'' fs3 r)"
    if "HasSuffix dst ''.gitignore'' \<or> linkMode = ''copy''"
    using that by (auto simp: C split: prod.splits option.splits)
  show ?thesis
    using a b b' c d by blast
qed

text \<open>
  Claim C10, at a stale link in copy mode with \<open>force\<close>. The branch for an existing
  target carries the comment \<^verbatim>\<open>Remove existing file or link\<close> and \<^verbatim>\<open>--force\<close> is documented
  as \<^verbatim>\<open>Force overwrite of existing files/links\<close>, but its test is \<open>os.Stat\<close>, for which
  a link without referent does not exist. The link \<open>overlay/a.txt\<close> is not removed,
  \<open>os.Create\<close> opens it through to its referent, and the call returns no error: the
  creation step does not fail, the file \<open>.upstream/old.txt\<close> is written outside the
  target tree, the target is still the link, and it is recorded as a managed copy.
\<close>

theorem createLink_copy_through_stale_link:
  "os_Lstat ex_tree_stale ''overlay/a.txt'' = Inr (Symlink ''../.upstream/old.txt'')
   \<and> os_Stat ex_tree_stale ''overlay/a.txt'' = Inl ENOENT
   \<and> createLink ''.upstream/a.txt'' ''overlay/a.txt'' ''copy'' True (ex_run ex_tree_stale)
       = (\<lparr>run_fs = ex_tree_stale_copied, createdLinks = [''overlay/a.txt''],
           state = \<lparr>ManagedFiles = [\<lparr>Path = ''a.txt'', LinkMode = ''copy'', Source = ''a.txt''\<rparr>]\<rparr>\<rparr>, None)
   \<and> os_Lstat ex_tree_stale_copied ''overlay/a.txt'' = Inr (Symlink ''../.upstream/old.txt'')
   \<and> os_Lstat ex_tree_stale ''.upstream/old.txt'' = Inl ENOENT
   \<and> os_Lstat ex_tree_stale_copied ''.upstream/old.txt'' = Inr (File ''new'' 420)"
  by code_simp

subsection \<open>Ignore files are copied\<close>

lemma createLink_gitignore:
  assumes "HasSuffix dst ''.gitignore''"
  shows "createLink src dst linkMode force r = createLink src dst ''copy'' force r"
  using assms by (simp add: createLink_def cong: sum.case_cong)

lemma createLink_gitignore_success:
  assumes g: "HasSuffix dst ''.gitignore''" and ok: "createLink src dst linkMode force r = (r', None)"
  shows "\<exists>fs2. copyFile fs2 src dst = (run_fs r', None) \<and> r' = track src dst ''copy'' (run_fs r') r"
proof -
  obtain u where v: "validatePath ''overlay'' (TrimPrefix dst ''overlay/'') = Inr u"
    using ok by (cases "validatePath ''overlay'' (TrimPrefix dst ''overlay/'')") (simp_all add: createLink_def)
  obtain fs1 where m: "MkdirAll (run_fs r) (Dir dst) = Inr fs1"
    using ok v by (cases "MkdirAll (run_fs r) (Dir dst)") (simp_all add: createLink_def)
  define pre where "pre = (case os_Stat fs1 dst of
              Inl _ \<Rightarrow> Inr fs1
            | Inr _ \<Rightarrow>
                if \<not> force then Inl (TargetAlreadyExists dst)
                else (case os_Remove fs1 dst of
                        Inl e \<Rightarrow> Inl (RemoveExistingFailed dst e)
                      | Inr fs2 \<Rightarrow> Inr fs2))"
  have step: "createLink src dst linkMode force r =
      (case pre of Inl e \<Rightarrow> (r\<lparr>run_fs := fs1\<rparr>, Some e)
       | Inr fs2 \<Rightarrow> (case copyFile fs2 src dst of
               (fs3, Some e) \<Rightarrow> (r\<lparr>run_fs := fs3\<rparr>, Some (CopyGitignoreFailed e))
             | (fs3, None) \<Rightarrow> (track src dst ''copy'' fs3 r, None)))"
    unfolding pre_def using g v m by (simp add: createLink_def cong: sum.case_cong)
  obtain fs2 where p: "pre = Inr fs2"
    using ok step by (cases pre) simp_all
  obtain fs3 x where c: "copyFile fs2 src dst = (fs3, x)"
    by (cases "copyFile fs2 src dst") blast
  have x: "x = None" and r': "r' = track src dst ''copy'' fs3 r"
    using ok step p c by (cases x; simp)+
  have "run_fs r' = fs3"
    by (simp add: r' track_def)
  then show ?thesis
    using c x r' by auto
qed

lemma IsManagedFile_Add:
  "IsManagedFile path (AddManagedFile path m src s) = Some \<lparr>Path = path, LinkMode = m, Source = src\<rparr>"
proof -
  have "IsManagedFile_loop path (filter (\<lambda>f. Path f \<noteq> path) fs @ [\<lparr>Path = path, LinkMode = m, Source = src\<rparr>])
      = Some \<lparr>Path = path, LinkMode = m, Source = src\<rparr>" for fs
    by (induction fs) simp_all
  then show ?thesis
    by (simp add: IsManagedFile_def ManagedFiles_Add)
qed

text \<open>
  For a target whose name ends in \<open>.gitignore\<close>, \<open>createLink\<close> does what it does in copy
  mode, whatever the requested mode. When it succeeds, the entry recorded for the target
  has link mode \<open>copy\<close>, the target is appended to the created paths, and the last step
  was a \<open>copyFile\<close> after which the places the source and the target lead to hold the
  same regular file.
\<close>

lemma createLink_gitignore_copies:
  assumes "HasSuffix dst ''.gitignore''"
  shows "createLink src dst linkMode force r = createLink src dst ''copy'' force r
   \<and> (createLink src dst linkMode force r = (r', None) \<longrightarrow>
        state r' = AddManagedFile (TrimPrefix dst ''overlay/'') ''copy'' (TrimPrefix src ''.upstream/'') (state r)
      \<and> IsManagedFile (TrimPrefix dst ''overlay/'') (state r')
          = Some \<lparr>Path = TrimPrefix dst ''overlay/'', LinkMode = ''copy'', Source = TrimPrefix src ''.upstream/''\<rparr>
      \<and> createdLinks r' = createdLinks r @ [dst]
      \<and> (\<exists>fs2 sloc dloc c m. copyFile fs2 src dst = (run_fs r', None)
            \<and> resolve fs2 src True = Inr sloc \<and> resolve fs2 dst True = Inr dloc
            \<and> get (run_fs r') dloc = Some (File c m) \<and> get (run_fs r') sloc = Some (File c m)))"
proof (intro conjI impI)
  show "createLink src dst linkMode force r = createLink src dst ''copy'' force r"
    using assms by (rule createLink_gitignore)
next
  assume ok: "createLink src dst linkMode force r = (r', None)"
  from createLink_gitignore_success [OF assms ok] obtain fs2
    where c: "copyFile fs2 src dst = (run_fs r', None)" and t: "r' = track src dst ''copy'' (run_fs r') r"
    by blast
  have st: "state r' = AddManagedFile (TrimPrefix dst ''overlay/'') ''copy'' (TrimPrefix src ''.upstream/'') (state r)"
    by (subst t) (simp add: track_def)
  show "state r' = AddManagedFile (TrimPrefix dst ''overlay/'') ''copy'' (TrimPrefix src ''.upstream/'') (state r)"
    by (rule st)
  show "IsManagedFile (TrimPrefix dst ''overlay/'') (state r')
      = Some \<lparr>Path = TrimPrefix dst ''overlay/'', LinkMode = ''copy'', Source = TrimPrefix src ''.upstream/''\<rparr>"
    by (simp only: st IsManagedFile_Add)
  show "createdLinks r' = createdLinks r @ [dst]"
    by (subst t) (simp add: track_def)
  show "\<exists>fs2 sloc dloc c m. copyFile fs2 src dst = (run_fs r', None)
      \<and> resolve fs2 src True = Inr sloc \<and> resolve fs2 dst True = Inr dloc
      \<and> get (run_fs r') dloc = Some (File c m) \<and> get (run_fs r') sloc = Some (File c m)"
    using c copyFile_copies [OF c] by blast
qed

text \<open>
  Claim C9, at a \<open>.gitignore\<close> target occupied by a link without referent, with
  \<open>force\<close>. The code means to replace what is there (\<^verbatim>\<open>Remove existing file or link\<close>)
  and to copy, but \<open>os.Stat\<close> does not see the link: it stays, \<open>os.Create\<close> writes the
  bytes to its referent \<open>overlay/gone.txt\<close>, and the call succeeds with the entry
  \<open>copy\<close> although the target \<open>overlay/.gitignore\<close> is a symbolic link and no regular
  file.
\<close>

theorem createLink_gitignore_stays_link:
  "HasSuffix ''overlay/.gitignore'' ''.gitignore''
   \<and> os_Lstat ex_tree_ignore_stale ''overlay/.gitignore'' = Inr (Symlink ''gone.txt'')
   \<and> os_Stat ex_tree_ignore_stale ''overlay/.gitignore'' = Inl ENOENT
   \<and> createLink ''.upstream/.gitignore'' ''overlay/.gitignore'' ''symlink'' True (ex_run ex_tree_ignore_stale)
       = (\<lparr>run_fs = ex_tree_ignore_stale_copied, createdLinks = [''overlay/.gitignore''],
           state = \<lparr>ManagedFiles = [\<lparr>Path = ''.gitignore'', LinkMode = ''copy'', Source = ''.gitignore''\<rparr>]\<rparr>\<rparr>,
          None)
   \<and> os_Lstat ex_tree_ignore_stale_copied ''overlay/.gitignore'' = Inr (Symlink ''gone.txt'')
   \<and> os_Lstat ex_tree_ignore_stale_copied ''overlay/gone.txt'' = Inr (File ''*.log'' 420)"
  by code_simp

section \<open>Properties of the link materializer\<close>







text \<open>
  The registry file is a file of the tree: a mapping whose target leads to it (the
  cleaned join of \<open>overlay\<close> and \<open>../.git-overlay.state.json\<close>, which the validator
  accepts) overwrites it before the failing return, and the registry is then unreadable.
\<close>

lemma materialize_target_reaches_registry:
  "validatePath ''overlay'' (TrimPrefix (Join [''overlay'', ''../.git-overlay.state.json'']) ''overlay/'') = Inr ()
   \<and> CreateLinks ex_json 8 ''copy'' True ex_cfg_registry ex_tree_old
     = (ex_tree_old_clobbered, Some (SourceDoesNotExist ''.upstream/missing.txt''))
   \<and> LoadState ex_json ex_tree_old_clobbered = Inl LoadStateFailed"
  by code_simp
section \<open>Properties of clean\<close>

lemma ManagedFiles_fold_Remove:
  "ManagedFiles (fold RemoveManagedFile ps x) = filter (\<lambda>f. Path f \<notin> set ps) (ManagedFiles x)"
proof (induction ps arbitrary: x)
  case Nil
  then show ?case by simp
next
  case (Cons p ps)
  have "ManagedFiles (fold RemoveManagedFile (p # ps) x)
      = filter (\<lambda>f. Path f \<notin> set ps) (ManagedFiles (RemoveManagedFile p x))"
    using Cons.IH [of "RemoveManagedFile p x"] by simp
  also have "\<dots> = filter (\<lambda>f. Path f \<notin> set (p # ps)) (ManagedFiles x)"
    by (auto simp: ManagedFiles_Remove intro: filter_cong)
  finally show ?case .
qed

lemma State_eq: "(s :: State) = \<lparr>ManagedFiles = ManagedFiles s\<rparr>"
  by simp

lemma fold_Remove_all:
  assumes "Path ` set (ManagedFiles x) \<subseteq> set ps"
  shows "fold RemoveManagedFile ps x = \<lparr>ManagedFiles = []\<rparr>"
proof -
  have "filter (\<lambda>f. Path f \<notin> set ps) (ManagedFiles x) = []"
    using assms by (auto simp: filter_empty_conv)
  then have "ManagedFiles (fold RemoveManagedFile ps x) = []"
    by (simp add: ManagedFiles_fold_Remove)
  then show ?thesis
    using State_eq [of "fold RemoveManagedFile ps x"] by simp
qed

lemma clean_path_cases:
  "clean_path managed relPath c = Inl e \<Longrightarrow> e = NilFileInfoPanic (Join [''overlay'', relPath])"
  by (auto simp: clean_path_def Let_def split: sum.splits if_splits prod.splits option.splits)

lemma clean_path_state:
  "clean_path managed relPath c = Inr c' \<Longrightarrow>
   clean_state c' = clean_state c \<or> clean_state c' = RemoveManagedFile relPath (clean_state c)"
  by (auto simp: clean_path_def Let_def split: sum.splits if_splits prod.splits option.splits)

lemma clean_path_state_subset:
  "clean_path managed relPath c = Inr c' \<Longrightarrow>
   set (ManagedFiles (clean_state c')) \<subseteq> set (ManagedFiles (clean_state c))"
  using clean_path_state [of managed relPath c c'] by (auto simp: ManagedFiles_Remove)

lemma clean_paths_state_subset:
  "clean_paths managed ps c = (c', r) \<Longrightarrow>
   set (ManagedFiles (clean_state c')) \<subseteq> set (ManagedFiles (clean_state c))"
proof (induction ps arbitrary: c)
  case Nil
  then show ?case by simp
next
  case (Cons p ps)
  show ?case
  proof (cases "clean_path managed p c")
    case (Inl e)
    then show ?thesis using Cons.prems by simp
  next
    case (Inr c1)
    then have "clean_paths managed ps c1 = (c', r)"
      using Cons.prems by simp
    then have "set (ManagedFiles (clean_state c')) \<subseteq> set (ManagedFiles (clean_state c1))"
      by (rule Cons.IH)
    then show ?thesis
      using clean_path_state_subset [OF Inr] by blast
  qed
qed

lemma clean_paths_error:
  "clean_paths managed ps c = (c', Some e) \<Longrightarrow> \<exists>p. e = NilFileInfoPanic p"
proof (induction ps arbitrary: c)
  case Nil
  then show ?case by simp
next
  case (Cons p ps)
  show ?case
  proof (cases "clean_path managed p c")
    case (Inl e')
    then show ?thesis using Cons.prems clean_path_cases [OF Inl] by auto
  next
    case (Inr c1)
    then show ?thesis using Cons by simp
  qed
qed

lemma set_managedPaths: "set (managedPaths st) = Path ` set (ManagedFiles st)"
  by (simp add: managedPaths_def)

text \<open>What a successful clean is made of.\<close>

lemma clean_success:
  assumes "clean j w = (w', Inr n)"
  shows "\<exists>st c root'.
      LoadState j w = Inr st
    \<and> clean_paths (managedPaths st) (sortedPaths st) \<lparr>clean_fs = w, clean_state = st, removed = 0\<rparr> = (c, None)
    \<and> removeEmptyDirs_overlay (clean_fs c) = (root', None)
    \<and> n = removed c
    \<and> SaveState j \<lparr>ManagedFiles = []\<rparr> root' = Inr w'"
proof -
  from assms have o: "os_Stat w ''overlay'' \<noteq> Inl ENOENT"
    by (auto simp: clean_def split: if_splits)
  obtain st where st: "LoadState j w = Inr st"
    using assms o by (cases "LoadState j w") (simp_all add: clean_def)
  obtain c x where c: "clean_paths (managedPaths st) (sortedPaths st)
      \<lparr>clean_fs = w, clean_state = st, removed = 0\<rparr> = (c, x)"
    by (cases "clean_paths (managedPaths st) (sortedPaths st) \<lparr>clean_fs = w, clean_state = st, removed = 0\<rparr>") blast
  have x: "x = None"
    using assms o st c by (cases x) (simp_all add: clean_def)
  obtain root' y where r: "removeEmptyDirs_overlay (clean_fs c) = (root', y)"
    by (cases "removeEmptyDirs_overlay (clean_fs c)") blast
  have y: "y = None"
    using assms o st c x r by (cases y) (simp_all add: clean_def Let_def)
  have "set (ManagedFiles (clean_state c)) \<subseteq> set (ManagedFiles st)"
    using clean_paths_state_subset [OF c] by simp
  then have "Path ` set (ManagedFiles (clean_state c)) \<subseteq> set (managedPaths st)"
    by (auto simp: set_managedPaths)
  then have e: "fold RemoveManagedFile (managedPaths st) (clean_state c) = \<lparr>ManagedFiles = []\<rparr>"
    by (rule fold_Remove_all)
  have "SaveState j \<lparr>ManagedFiles = []\<rparr> root' = Inr w' \<and> n = removed c"
    using assms o st c x r y e
    by (cases "SaveState j \<lparr>ManagedFiles = []\<rparr> root'") (simp_all add: clean_def Let_def)
  then show ?thesis
    using st c x r y by blast
qed

lemma clean_error_kinds:
  assumes "clean j w = (w', Inl e)"
  shows "e = OverlayDirectoryMissing \<or> e = LoadStateFailed \<or> (\<exists>p. e = NilFileInfoPanic p)
       \<or> (\<exists>e'. e = CleanupEmptyDirsFailed e') \<or> e = SaveStateFailed"
proof (cases "os_Stat w ''overlay'' = Inl ENOENT")
  case True
  then show ?thesis using assms by (simp add: clean_def)
next
  case o: False
  show ?thesis
  proof (cases "LoadState j w")
    case (Inl e')
    then have "e' = LoadStateFailed"
      by (auto simp: LoadState_def split: sum.splits option.splits if_splits)
    then show ?thesis using assms o Inl by (simp add: clean_def)
  next
    case (Inr st)
    obtain c x where c: "clean_paths (managedPaths st) (sortedPaths st)
        \<lparr>clean_fs = w, clean_state = st, removed = 0\<rparr> = (c, x)"
      by (cases "clean_paths (managedPaths st) (sortedPaths st) \<lparr>clean_fs = w, clean_state = st, removed = 0\<rparr>") blast
    show ?thesis
    proof (cases x)
      case (Some e')
      then have "e = e'"
        using assms o Inr c by (simp add: clean_def)
      then show ?thesis
        using clean_paths_error c Some by blast
    next
      case None
      obtain root' y where r: "removeEmptyDirs_overlay (clean_fs c) = (root', y)"
        by (cases "removeEmptyDirs_overlay (clean_fs c)") blast
      show ?thesis
      proof (cases y)
        case (Some e')
        then show ?thesis
          using assms o Inr c None r by (auto simp: clean_def Let_def)
      next
        case y: None
        let ?s = "fold RemoveManagedFile (managedPaths st) (clean_state c)"
        show ?thesis
        proof (cases "SaveState j ?s root'")
          case (Inl e')
          then have "e' = SaveStateFailed"
            by (auto simp: SaveState_def split: sum.splits)
          then show ?thesis
            using assms o Inr c None r y Inl by (simp add: clean_def Let_def)
        next
          case (Inr w'')
          then show ?thesis
            using assms o \<open>LoadState j w = Inr st\<close> c None r y by (simp add: clean_def Let_def)
        qed
      qed
    qed
  qed
qed

lemma clean_path_remove_fails:
  assumes "os_Lstat (clean_fs c) (Join [''overlay'', relPath]) = Inr info" "\<not> is_dir info"
    and "os_Remove (clean_fs c) (Join [''overlay'', relPath]) = Inl en"
  shows "clean_path managed relPath c = Inr (c\<lparr>clean_state := RemoveManagedFile relPath (clean_state c)\<rparr>)"
  using assms by (simp add: clean_path_def Let_def)

lemma clean_path_removeAll_fails:
  assumes "os_Lstat (clean_fs c) (Join [''overlay'', relPath]) = Inr info" "is_dir info"
    and "isFullyManaged (Join [''overlay'', relPath]) managed info"
    and "os_RemoveAll (clean_fs c) (Join [''overlay'', relPath]) = (root', Some en)"
  shows "clean_path managed relPath c
     = Inr (c\<lparr>clean_fs := root', clean_state := RemoveManagedFile relPath (clean_state c)\<rparr>)"
  using assms by (simp add: clean_path_def Let_def)

lemma clean_registry_emptied:
  assumes "clean j w = (w', Inr n)"
  shows "os_ReadFile w' ''.git-overlay.state.json'' = Inr (MarshalIndent j \<lparr>ManagedFiles = []\<rparr>)"
proof -
  from clean_success [OF assms] obtain root' where "SaveState j \<lparr>ManagedFiles = []\<rparr> root' = Inr w'"
    by blast
  then show ?thesis
    by (rule SaveState_saved)
qed

text \<open>
  Claim C5 (amended). In clean, a failure to delete a managed path that is still there
  (\<open>os.Remove\<close> of a file or link, \<open>os.RemoveAll\<close> of a fully managed directory) is not
  an error of the operation: the path is not counted, its entry is dropped from the
  registry all the same, and the loop goes on. The errors clean does end with are a
  missing target root, a registry file that cannot be read, the crash on an \<open>os.Lstat\<close>
  error other than "does not exist", a failure while pruning empty directories, and a
  failure to save the registry; and whenever clean succeeds the saved registry is empty.
\<close>

theorem clean_error_policy:
  "(os_Lstat (clean_fs c) (Join [''overlay'', relPath]) = Inr info \<and> \<not> is_dir info
      \<and> os_Remove (clean_fs c) (Join [''overlay'', relPath]) = Inl en
     \<longrightarrow> clean_path managed relPath c
          = Inr (c\<lparr>clean_state := RemoveManagedFile relPath (clean_state c)\<rparr>))
   \<and> (os_Lstat (clean_fs c) (Join [''overlay'', relPath]) = Inr info \<and> is_dir info
      \<and> isFullyManaged (Join [''overlay'', relPath]) managed info
      \<and> os_RemoveAll (clean_fs c) (Join [''overlay'', relPath]) = (root', Some en)
     \<longrightarrow> clean_path managed relPath c
          = Inr (c\<lparr>clean_fs := root', clean_state := RemoveManagedFile relPath (clean_state c)\<rparr>))
   \<and> (clean j w = (w', Inl e)
     \<longrightarrow> e = OverlayDirectoryMissing \<or> e = LoadStateFailed \<or> (\<exists>p. e = NilFileInfoPanic p)
          \<or> (\<exists>e'. e = CleanupEmptyDirsFailed e') \<or> e = SaveStateFailed)
   \<and> (clean j w = (w', Inr n)
     \<longrightarrow> os_ReadFile w' ''.git-overlay.state.json'' = Inr (MarshalIndent j \<lparr>ManagedFiles = []\<rparr>)
        \<and> (Unmarshal j (MarshalIndent j \<lparr>ManagedFiles = []\<rparr>) = Some \<lparr>ManagedFiles = []\<rparr>
             \<longrightarrow> LoadState j w' = Inr \<lparr>ManagedFiles = []\<rparr>))"
proof (intro conjI impI)
  assume "os_Lstat (clean_fs c) (Join [''overlay'', relPath]) = Inr info \<and> \<not> is_dir info
      \<and> os_Remove (clean_fs c) (Join [''overlay'', relPath]) = Inl en"
  then show "clean_path managed relPath c
          = Inr (c\<lparr>clean_state := RemoveManagedFile relPath (clean_state c)\<rparr>)"
    using clean_path_remove_fails by blast
next
  assume "os_Lstat (clean_fs c) (Join [''overlay'', relPath]) = Inr info \<and> is_dir info
      \<and> isFullyManaged (Join [''overlay'', relPath]) managed info
      \<and> os_RemoveAll (clean_fs c) (Join [''overlay'', relPath]) = (root', Some en)"
  then show "clean_path managed relPath c
          = Inr (c\<lparr>clean_fs := root', clean_state := RemoveManagedFile relPath (clean_state c)\<rparr>)"
    using clean_path_removeAll_fails by blast
next
  assume "clean j w = (w', Inl e)"
  then show "e = OverlayDirectoryMissing \<or> e = LoadStateFailed \<or> (\<exists>p. e = NilFileInfoPanic p)
          \<or> (\<exists>e'. e = CleanupEmptyDirsFailed e') \<or> e = SaveStateFailed"
    by (rule clean_error_kinds)
next
  assume c: "clean j w = (w', Inr n)"
  show "os_ReadFile w' ''.git-overlay.state.json'' = Inr (MarshalIndent j \<lparr>ManagedFiles = []\<rparr>)"
    using c by (rule clean_registry_emptied)
next
  assume c: "clean j w = (w', Inr n)"
    and u: "Unmarshal j (MarshalIndent j \<lparr>ManagedFiles = []\<rparr>) = Some \<lparr>ManagedFiles = []\<rparr>"
  show "LoadState j w' = Inr \<lparr>ManagedFiles = []\<rparr>"
    by (rule LoadState_read [OF clean_registry_emptied [OF c] u])
qed

theorem clean_error_policy_witness:
  "os_Lstat (clean_fs ex_clean_run) (Join [''overlay'', ''locked/f.txt'']) = Inr (File ''managed'' 420)
   \<and> \<not> is_dir (File ''managed'' 420)
   \<and> os_Remove (clean_fs ex_clean_run) (Join [''overlay'', ''locked/f.txt'']) = Inl EACCES
   \<and> clean_path [''locked/f.txt''] ''locked/f.txt'' ex_clean_run
       = Inr (ex_clean_run\<lparr>clean_state := RemoveManagedFile ''locked/f.txt'' (clean_state ex_clean_run)\<rparr>)
   \<and> os_Lstat (clean_fs (ex_clean_run\<lparr>clean_fs := ex_tree_locked\<rparr>)) (Join [''overlay'', ''locked''])
       = Inr (Directory False [(''f.txt'', File ''managed'' 420)])
   \<and> is_dir (Directory False [(''f.txt'', File ''managed'' 420)])
   \<and> isFullyManaged (Join [''overlay'', ''locked'']) [''locked/f.txt'']
        (Directory False [(''f.txt'', File ''managed'' 420)])
   \<and> os_RemoveAll (clean_fs (ex_clean_run\<lparr>clean_fs := ex_tree_locked\<rparr>)) (Join [''overlay'', ''locked''])
       = (ex_tree_locked, Some EACCES)
   \<and> clean_path [''locked/f.txt''] ''locked'' (ex_clean_run\<lparr>clean_fs := ex_tree_locked\<rparr>)
       = Inr (ex_clean_run\<lparr>clean_fs := ex_tree_locked\<rparr>
               \<lparr>clean_fs := ex_tree_locked,
                clean_state := RemoveManagedFile ''locked'' (clean_state (ex_clean_run\<lparr>clean_fs := ex_tree_locked\<rparr>))\<rparr>)
   \<and> clean ex_json (Directory True []) = (Directory True [], Inl OverlayDirectoryMissing)
   \<and> clean ex_json ex_tree_locked_saved = (ex_tree_locked_cleaned, Inr 0)
   \<and> os_ReadFile ex_tree_locked_cleaned ''.git-overlay.state.json''
       = Inr (MarshalIndent ex_json \<lparr>ManagedFiles = []\<rparr>)
   \<and> Unmarshal ex_json (MarshalIndent ex_json \<lparr>ManagedFiles = []\<rparr>) = Some \<lparr>ManagedFiles = []\<rparr>
   \<and> LoadState ex_json ex_tree_locked_cleaned = Inr \<lparr>ManagedFiles = []\<rparr>"
proof -
  have l: "os_Lstat (clean_fs ex_clean_run) (Join [''overlay'', ''locked/f.txt'']) = Inr (File ''managed'' 420)"
    by code_simp
  have d: "\<not> is_dir (File ''managed'' 420)"
    by simp
  have r: "os_Remove (clean_fs ex_clean_run) (Join [''overlay'', ''locked/f.txt'']) = Inl EACCES"
    by code_simp
  note T = clean_error_policy [where c = ex_clean_run and relPath = "''locked/f.txt''" and managed = "[''locked/f.txt'']"
      and info = "File ''managed'' 420" and en = EACCES]
  have p: "clean_path [''locked/f.txt''] ''locked/f.txt'' ex_clean_run
       = Inr (ex_clean_run\<lparr>clean_state := RemoveManagedFile ''locked/f.txt'' (clean_state ex_clean_run)\<rparr>)"
    using T l d r by blast
  let ?c = "ex_clean_run\<lparr>clean_fs := ex_tree_locked\<rparr>"
  let ?i = "Directory False [(''f.txt'', File ''managed'' 420)]"
  have l2: "os_Lstat (clean_fs ?c) (Join [''overlay'', ''locked'']) = Inr ?i"
    by code_simp
  have d2: "is_dir ?i"
    by simp
  have m2: "isFullyManaged (Join [''overlay'', ''locked'']) [''locked/f.txt''] ?i"
    by code_simp
  have r2: "os_RemoveAll (clean_fs ?c) (Join [''overlay'', ''locked'']) = (ex_tree_locked, Some EACCES)"
    by code_simp
  have p2: "clean_path [''locked/f.txt''] ''locked'' ?c
       = Inr (?c\<lparr>clean_fs := ex_tree_locked, clean_state := RemoveManagedFile ''locked'' (clean_state ?c)\<rparr>)"
    using clean_error_policy [where c = ?c and relPath = "''locked''" and managed = "[''locked/f.txt'']"
      and info = ?i and en = EACCES and root' = ex_tree_locked] l2 d2 m2 r2 by blast
  have f: "clean ex_json (Directory True []) = (Directory True [], Inl OverlayDirectoryMissing)"
    by code_simp
  have s: "clean ex_json ex_tree_locked_saved = (ex_tree_locked_cleaned, Inr 0)"
    by code_simp
  note S = clean_error_policy [where j = ex_json and w = ex_tree_locked_saved, THEN conjunct2, THEN conjunct2,
      THEN conjunct2, rule_format, OF s]
  have rd: "os_ReadFile ex_tree_locked_cleaned ''.git-overlay.state.json''
       = Inr (MarshalIndent ex_json \<lparr>ManagedFiles = []\<rparr>)"
    by (rule S [THEN conjunct1])
  have u: "Unmarshal ex_json (MarshalIndent ex_json \<lparr>ManagedFiles = []\<rparr>) = Some \<lparr>ManagedFiles = []\<rparr>"
    by code_simp
  have ld: "LoadState ex_json ex_tree_locked_cleaned = Inr \<lparr>ManagedFiles = []\<rparr>"
    by (rule S [THEN conjunct2, rule_format, OF u])
  show ?thesis
    by (intro conjI) (rule l d r p l2 d2 m2 r2 p2 f s rd u ld)+
qed

text \<open>
  The claim as stated fails: the managed file cannot be deleted (its directory is not
  writable), yet clean returns without error, counts nothing, leaves the file in place
  and drops its entry from the registry.
\<close>

theorem clean_swallows_failed_delete:
  "os_Lstat ex_tree_locked_saved ''overlay/locked/f.txt'' = Inr (File ''managed'' 420)
   \<and> os_Remove ex_tree_locked_saved ''overlay/locked/f.txt'' = Inl EACCES
   \<and> clean ex_json ex_tree_locked_saved = (ex_tree_locked_cleaned, Inr 0)
   \<and> os_Lstat (fst (clean ex_json ex_tree_locked_saved)) ''overlay/locked/f.txt'' = Inr (File ''managed'' 420)
   \<and> LoadState ex_json ex_tree_locked_saved
       = Inr \<lparr>ManagedFiles = [\<lparr>Path = ''locked/f.txt'', LinkMode = ''copy'', Source = ''f.txt''\<rparr>]\<rparr>
   \<and> LoadState ex_json ex_tree_locked_cleaned = Inr \<lparr>ManagedFiles = []\<rparr>"
  by code_simp
section \<open>The order in which clean processes the managed paths\<close>

lemma clean_paths_append:
  "clean_paths managed (pre @ post) c =
     (case clean_paths managed pre c of
        (c1, Some e) \<Rightarrow> (c1, Some e)
      | (c1, None) \<Rightarrow> clean_paths managed post c1)"
  by (induction pre arbitrary: c) (simp_all split: sum.splits)

lemma clean_paths_in_order:
  "clean_paths managed (pre @ p # post) c =
     (case clean_paths managed pre c of
        (c1, Some e) \<Rightarrow> (c1, Some e)
      | (c1, None) \<Rightarrow>
          (case clean_path managed p c1 of
             Inl e \<Rightarrow> (c1, Some e)
           | Inr c2 \<Rightarrow> clean_paths managed post c2))"
  by (simp add: clean_paths_append split: prod.splits option.splits)

text \<open>
  Claim C7. The slice clean ranges over holds every managed path once; of two paths in
  it the earlier has more separators or, with as many, is the greater string (depth
  descending, ties in reverse lexical order); hence a managed path strictly nested under
  another stands before it. The loop of clean runs over this slice from the front: a
  clean that succeeds is \<open>clean_paths\<close> over \<open>sortedPaths\<close> of the loaded registry, and
  \<open>clean_paths\<close> handles a path in the state that the paths before it have left.
\<close>

theorem clean_order:
  "(\<forall>i j. i < j \<and> j < length (sortedPaths s) \<longrightarrow>
       count_list (sortedPaths s ! j) (CHR ''/'') < count_list (sortedPaths s ! i) (CHR ''/'')
       \<or> (count_list (sortedPaths s ! i) (CHR ''/'') = count_list (sortedPaths s ! j) (CHR ''/'')
           \<and> sortedPaths s ! j < sortedPaths s ! i))
   \<and> set (sortedPaths s) = Path ` set (ManagedFiles s)
   \<and> distinct (sortedPaths s)
   \<and> (\<forall>child \<in> Path ` set (ManagedFiles s). \<forall>anc \<in> Path ` set (ManagedFiles s).
        nested_under child anc \<longrightarrow>
          (\<exists>pre mid post. sortedPaths s = pre @ child # mid @ anc # post))
   \<and> (\<forall>j w w' n. clean j w = (w', Inr n) \<longrightarrow>
        (\<exists>st c. LoadState j w = Inr st
           \<and> clean_paths (managedPaths st) (sortedPaths st)
                \<lparr>clean_fs = w, clean_state = st, removed = 0\<rparr> = (c, None)
           \<and> n = removed c))
   \<and> (\<forall>managed pre p post c.
        clean_paths managed (pre @ p # post) c =
          (case clean_paths managed pre c of
             (c1, Some e) \<Rightarrow> (c1, Some e)
           | (c1, None) \<Rightarrow>
               (case clean_path managed p c1 of
                  Inl e \<Rightarrow> (c1, Some e)
                | Inr c2 \<Rightarrow> clean_paths managed post c2)))"
proof -
  have d: "distinct (managedPaths s)" and m: "set (managedPaths s) = Path ` set (ManagedFiles s)"
    by (simp_all add: managedPaths_def)
  have srt: "sorted_wrt less_path (sortedPaths s)"
    using d by (simp add: sortedPaths_def sorted_sort_slice)
  have ord: "\<forall>i j. i < j \<and> j < length (sortedPaths s) \<longrightarrow>
       count_list (sortedPaths s ! j) (CHR ''/'') < count_list (sortedPaths s ! i) (CHR ''/'')
       \<or> (count_list (sortedPaths s ! i) (CHR ''/'') = count_list (sortedPaths s ! j) (CHR ''/'')
           \<and> sortedPaths s ! j < sortedPaths s ! i)"
    using sorted_less_path_nth [OF srt] by blast
  have st: "set (sortedPaths s) = Path ` set (ManagedFiles s)"
    using m by (simp add: sortedPaths_def set_sort_slice)
  have dist: "distinct (sortedPaths s)"
    using d by (simp add: sortedPaths_def distinct_sort_slice)
  have nest: "\<forall>child \<in> Path ` set (ManagedFiles s). \<forall>anc \<in> Path ` set (ManagedFiles s).
        nested_under child anc \<longrightarrow>
          (\<exists>pre mid post. sortedPaths s = pre @ child # mid @ anc # post)"
  proof (intro ballI impI)
    fix child anc
    assume c: "child \<in> Path ` set (ManagedFiles s)" and a: "anc \<in> Path ` set (ManagedFiles s)"
      and n: "nested_under child anc"
    have "less_path child anc"
      using nested_under_depth [OF n] by (simp add: less_path_def Let_def)
    then show "\<exists>pre mid post. sortedPaths s = pre @ child # mid @ anc # post"
      using sorted_wrt_before [OF srt] c a st by blast
  qed
  have run: "\<forall>j w w' n. clean j w = (w', Inr n) \<longrightarrow>
        (\<exists>st c. LoadState j w = Inr st
           \<and> clean_paths (managedPaths st) (sortedPaths st)
                \<lparr>clean_fs = w, clean_state = st, removed = 0\<rparr> = (c, None)
           \<and> n = removed c)"
    using clean_success by blast
  have seq: "\<forall>managed pre p post c.
        clean_paths managed (pre @ p # post) c =
          (case clean_paths managed pre c of
             (c1, Some e) \<Rightarrow> (c1, Some e)
           | (c1, None) \<Rightarrow>
               (case clean_path managed p c1 of
                  Inl e \<Rightarrow> (c1, Some e)
                | Inr c2 \<Rightarrow> clean_paths managed post c2))"
    by (intro allI) (rule clean_paths_in_order)
  show ?thesis
    by (intro conjI) (rule ord st dist nest run seq)+
qed

theorem clean_order_witness:
  "sortedPaths ex_state_mixed = [''c/d/e'', ''a/c'', ''a/b'', ''b'', ''a'']
   \<and> (2::nat) < 3 \<and> 3 < length (sortedPaths ex_state_mixed)
   \<and> count_list (sortedPaths ex_state_mixed ! 3) (CHR ''/'')
       < count_list (sortedPaths ex_state_mixed ! 2) (CHR ''/'')
   \<and> \<not> sortedPaths ex_state_mixed ! 3 < sortedPaths ex_state_mixed ! 2
   \<and> ''a/b'' \<in> Path ` set (ManagedFiles ex_state_mixed)
   \<and> ''a'' \<in> Path ` set (ManagedFiles ex_state_mixed)
   \<and> nested_under ''a/b'' ''a''
   \<and> (\<exists>pre mid post. sortedPaths ex_state_mixed = pre @ ''a/b'' # mid @ ''a'' # post)
   \<and> clean ex_json ex_tree_linked_saved = (ex_tree_cleaned, Inr 1)
   \<and> (\<exists>st c. LoadState ex_json ex_tree_linked_saved = Inr st
         \<and> clean_paths (managedPaths st) (sortedPaths st)
              \<lparr>clean_fs = ex_tree_linked_saved, clean_state = st, removed = 0\<rparr> = (c, None)
         \<and> 1 = removed c)"
proof -
  have v: "sortedPaths ex_state_mixed = [''c/d/e'', ''a/c'', ''a/b'', ''b'', ''a'']"
    by code_simp
  have i: "(2::nat) < 3" "3 < length (sortedPaths ex_state_mixed)"
    by (simp_all add: v)
  have k: "\<not> sortedPaths ex_state_mixed ! 3 < sortedPaths ex_state_mixed ! 2"
    by code_simp
  have o: "count_list (sortedPaths ex_state_mixed ! 3) (CHR ''/'')
       < count_list (sortedPaths ex_state_mixed ! 2) (CHR ''/'')"
    using clean_order [of ex_state_mixed, THEN conjunct1, rule_format, of 2 3] i k by blast
  have c: "''a/b'' \<in> Path ` set (ManagedFiles ex_state_mixed)"
    and a: "''a'' \<in> Path ` set (ManagedFiles ex_state_mixed)"
    by (simp_all add: ex_state_mixed_def)
  have n: "nested_under ''a/b'' ''a''"
    by (simp add: nested_under_def)
  have b: "\<exists>pre mid post. sortedPaths ex_state_mixed = pre @ ''a/b'' # mid @ ''a'' # post"
    using clean_order [of ex_state_mixed] c a n by blast
  have r: "clean ex_json ex_tree_linked_saved = (ex_tree_cleaned, Inr 1)"
    by code_simp
  have e: "\<exists>st c. LoadState ex_json ex_tree_linked_saved = Inr st
         \<and> clean_paths (managedPaths st) (sortedPaths st)
              \<lparr>clean_fs = ex_tree_linked_saved, clean_state = st, removed = 0\<rparr> = (c, None)
         \<and> 1 = removed c"
    using clean_order [of ex_state_mixed] r by blast
  show ?thesis
    by (intro conjI) (rule v i k o c a n b r e)+
qed
section \<open>Running clean twice\<close>

text \<open>
  Entry lists in name order: writing an entry keeps the order, and writing back the entry
  that is there changes nothing.
\<close>

lemma sorted_del_entry: "sorted_wrt (<) (map fst es) \<Longrightarrow> sorted_wrt (<) (map fst (del_entry es s))"
  by (induction es) (auto simp: del_entry_def)

lemma set_ins_entry: "set (ins_entry es s c) = insert (s, c) (set es)"
  by (induction es) auto

lemma sorted_ins_entry:
  "sorted_wrt (<) (map fst es) \<Longrightarrow> s \<notin> fst ` set es \<Longrightarrow> sorted_wrt (<) (map fst (ins_entry es s c))"
proof (induction es)
  case Nil
  then show ?case by simp
next
  case (Cons e es)
  show ?case
  proof (cases "s \<le> fst e")
    case True
    then have "s < fst e"
      using Cons.prems(2) by auto
    then show ?thesis
      using True Cons.prems(1) by auto
  next
    case False
    then show ?thesis
      using Cons by (auto simp: set_ins_entry)
  qed
qed

lemma sorted_set_entry: "sorted_wrt (<) (map fst es) \<Longrightarrow> sorted_wrt (<) (map fst (set_entry es s v))"
proof (cases v)
  case None
  assume "sorted_wrt (<) (map fst es)"
  then show ?thesis using None by (simp add: set_entry_def sorted_del_entry)
next
  case (Some c)
  assume "sorted_wrt (<) (map fst es)"
  moreover have "s \<notin> fst ` set (del_entry es s)"
    by (auto simp: del_entry_def)
  ultimately show ?thesis
    using Some by (simp add: set_entry_def sorted_del_entry sorted_ins_entry)
qed

lemma ins_entry_del_entry_same:
  "sorted_wrt (<) (map fst es) \<Longrightarrow> map_of es s = Some c \<Longrightarrow> ins_entry (del_entry es s) s c = es"
proof (induction es)
  case Nil
  then show ?case by simp
next
  case (Cons e es)
  obtain k x where e: "e = (k, x)" by (cases e)
  show ?case
  proof (cases "k = s")
    case True
    then have x: "x = c" using Cons.prems(2) e by simp
    have "\<forall>y\<in>set es. s < fst y"
      using Cons.prems(1) e True by auto
    then have d: "del_entry es s = es"
      by (auto simp: del_entry_def filter_id_conv)
    have "ins_entry es s c = (s, c) # es"
      using \<open>\<forall>y\<in>set es. s < fst y\<close> by (cases es) auto
    then show ?thesis
      using e True x d by (simp add: del_entry_def)
  next
    case False
    then have m: "map_of es s = Some c"
      using Cons.prems(2) e by simp
    then have "s \<in> fst ` set es"
      by (metis map_of_eq_None_iff option.distinct(1))
    then have "k < s"
      using Cons.prems(1) e by auto
    then have "\<not> s \<le> k" by simp
    then show ?thesis
      using Cons.IH [OF _ m] Cons.prems(1) e False by (simp add: del_entry_def)
  qed
qed

lemma set_entry_same:
  "sorted_wrt (<) (map fst es) \<Longrightarrow> map_of es s = Some c \<Longrightarrow> set_entry es s (Some c) = es"
  by (simp add: set_entry_def ins_entry_del_entry_same)

lemma del_entry_ins_entry: "s \<notin> fst ` set xs \<Longrightarrow> del_entry (ins_entry xs s c) s = xs"
proof (induction xs)
  case Nil
  then show ?case by (simp add: del_entry_def)
next
  case (Cons e xs)
  then have "del_entry xs s = xs \<or> True" by simp
  have f: "filter (\<lambda>e. fst e \<noteq> s) xs = xs"
    using Cons.prems by (auto simp: filter_id_conv)
  show ?case
    using Cons f by (auto simp: del_entry_def)
qed

lemma set_entry_set_entry:
  "set_entry (set_entry es s (Some a)) s v = set_entry es s v"
proof -
  have n: "s \<notin> fst ` set (del_entry es s)"
    by (auto simp: del_entry_def)
  have "del_entry (set_entry es s (Some a)) s = del_entry es s"
    using del_entry_ins_entry [OF n] by (simp add: set_entry_def)
  then show ?thesis
    by (cases v) (simp_all add: set_entry_def)
qed

text \<open>
  The deletions of clean leave a working directory a working directory.
\<close>

lemma workdir_ok_Directory:
  "workdir_ok (Directory rw es) =
     (sorted_wrt (<) (map fst es)
      \<and> (case map_of es ''overlay'' of None \<Rightarrow> True | Some n \<Rightarrow> is_dir n)
      \<and> (case map_of es ''.git-overlay.state.json'' of
            None \<Rightarrow> True
          | Some (File c m) \<Rightarrow> True
          | Some _ \<Rightarrow> False))"
  by (simp add: workdir_ok_def)

lemma workdir_ok_dir: "workdir_ok root \<Longrightarrow> \<exists>rw es. root = Directory rw es"
  by (cases root) (simp_all add: workdir_ok_def)

lemma is_dir_put: "is_dir n \<Longrightarrow> rest \<noteq> [] \<Longrightarrow> is_dir (put n rest v)"
  by (cases n; cases rest) (auto split: option.splits)

lemma put_File: "rest \<noteq> [] \<Longrightarrow> put (File c m) rest v = File c m"
  by (cases rest) simp_all

lemma put_workdir_ok:
  assumes ok: "workdir_ok root" and l: "loc \<noteq> []"
    and o: "loc = [''overlay''] \<longrightarrow> (case v of None \<Rightarrow> True | Some n \<Rightarrow> is_dir n)"
    and g: "loc = [''.git-overlay.state.json''] \<longrightarrow> (case v of None \<Rightarrow> True | Some n \<Rightarrow> \<exists>c m. n = File c m)"
  shows "workdir_ok (put root loc v)"
proof -
  obtain rw es where r: "root = Directory rw es"
    using workdir_ok_dir [OF ok] by blast
  obtain s rest where loc: "loc = s # rest"
    using l by (cases loc) simp_all
  note W = ok [unfolded r workdir_ok_Directory]
  show ?thesis
  proof (cases "rest = []")
    case True
    have p: "put root loc v = Directory rw (set_entry es s v)"
      using r loc True by simp
    have a: "case map_of (set_entry es s v) ''overlay'' of None \<Rightarrow> True | Some n \<Rightarrow> is_dir n"
      using W o loc True by (auto simp: map_of_set_entry split: option.splits)
    have b: "case map_of (set_entry es s v) ''.git-overlay.state.json'' of
            None \<Rightarrow> True | Some (File c m) \<Rightarrow> True | Some _ \<Rightarrow> False"
      using W g loc True by (auto simp: map_of_set_entry split: option.splits)
    show ?thesis
      unfolding p workdir_ok_Directory using W a b by (simp add: sorted_set_entry)
  next
    case False
    show ?thesis
    proof (cases "map_of es s")
      case None
      then show ?thesis using ok r loc False by simp
    next
      case (Some c)
      have p: "put root loc v = Directory rw (set_entry es s (Some (put c rest v)))"
        using r loc False Some by simp
      have a: "case map_of (set_entry es s (Some (put c rest v))) ''overlay'' of
            None \<Rightarrow> True | Some n \<Rightarrow> is_dir n"
        using W Some False by (auto simp: map_of_set_entry is_dir_put split: option.splits)
      have b: "case map_of (set_entry es s (Some (put c rest v))) ''.git-overlay.state.json'' of
            None \<Rightarrow> True | Some (File c m) \<Rightarrow> True | Some _ \<Rightarrow> False"
      proof (cases "s = ''.git-overlay.state.json''")
        case True
        then obtain fc fm where "c = File fc fm"
          using W Some by (cases c) simp_all
        then show ?thesis
          using True False by (simp add: map_of_set_entry put_File)
      next
        case ns: False
        then show ?thesis
          using W by (simp add: map_of_set_entry)
      qed
      show ?thesis
        unfolding p workdir_ok_Directory using W a b by (simp add: sorted_set_entry)
    qed
  qed
qed

lemma rm_node_kind:
  "rm_node pw n = Some n' \<Longrightarrow> (is_dir n \<longrightarrow> is_dir n') \<and> (\<forall>c m. n = File c m \<longrightarrow> n' = File c m)"
  by (cases n) (auto simp: Let_def split: if_splits)

lemma os_Remove_cases:
  assumes "os_Remove root p = Inr root'"
  shows "\<exists>loc. loc \<noteq> [] \<and> root' = put root loc None"
proof (cases "resolve root p False")
  case (Inl e)
  then show ?thesis using assms by (simp add: os_Remove_def)
next
  case (Inr loc)
  show ?thesis
  proof (cases "get root loc")
    case None
    then show ?thesis using assms Inr by (simp add: os_Remove_def)
  next
    case (Some n)
    have "loc \<noteq> [] \<and> root' = put root loc None"
      using assms Inr Some by (simp add: os_Remove_def split: if_splits)
    then show ?thesis by blast
  qed
qed

lemma os_RemoveAll_cases:
  assumes a: "os_RemoveAll root p = (root', e)"
  shows "root' = root
     \<or> (\<exists>loc. loc \<noteq> [] \<and> root' = put root loc None)
     \<or> (\<exists>loc n n'. loc \<noteq> [] \<and> get root loc = Some n
           \<and> rm_node (parent_writable root loc) n = Some n' \<and> root' = put root loc (Some n'))"
proof (cases "resolve root p False")
  case (Inl e')
  then show ?thesis using a by (simp add: os_RemoveAll_def)
next
  case (Inr loc)
  show ?thesis
  proof (cases "get root loc")
    case None
    then show ?thesis using a Inr by (simp add: os_RemoveAll_def)
  next
    case (Some n)
    note g = Some
    show ?thesis
    proof (cases "loc = []")
      case True
      then show ?thesis using a Inr g by (simp add: os_RemoveAll_def)
    next
      case False
      show ?thesis
      proof (cases "rm_node (parent_writable root loc) n")
        case None
        then have "root' = put root loc None"
          using a Inr g False by (simp add: os_RemoveAll_def)
        then show ?thesis using False by blast
      next
        case (Some n')
        then have "root' = put root loc (Some n')"
          using a Inr g False by (simp add: os_RemoveAll_def)
        then show ?thesis using False Some g by blast
      qed
    qed
  qed
qed

lemma os_Remove_workdir_ok:
  assumes "os_Remove root p = Inr root'" "workdir_ok root"
  shows "workdir_ok root'"
proof -
  from os_Remove_cases [OF assms(1)] obtain loc where l: "loc \<noteq> []" and r: "root' = put root loc None"
    by blast
  show ?thesis
    unfolding r by (rule put_workdir_ok [OF assms(2) l]) simp_all
qed

lemma get_single: "get root [s] = dir_child root s"
  by (simp split: option.splits)

lemma os_RemoveAll_workdir_ok:
  assumes a: "os_RemoveAll root p = (root', e)" and ok: "workdir_ok root"
  shows "workdir_ok root'"
proof -
  from os_RemoveAll_cases [OF a] consider "root' = root"
    | loc where "loc \<noteq> []" "root' = put root loc None"
    | loc n n' where "loc \<noteq> []" "get root loc = Some n" "rm_node (parent_writable root loc) n = Some n'"
        "root' = put root loc (Some n')"
    by blast
  then show ?thesis
  proof cases
    case 1
    then show ?thesis using ok by simp
  next
    case 2
    show ?thesis
      unfolding 2(2) by (rule put_workdir_ok [OF ok 2(1)]) simp_all
  next
    case 3
    note K = rm_node_kind [OF 3(3)]
    obtain rw es where r: "root = Directory rw es"
      using workdir_ok_dir [OF ok] by blast
    note W = ok [unfolded r workdir_ok_Directory]
    have o: "loc = [''overlay''] \<longrightarrow> (case Some n' of None \<Rightarrow> True | Some n \<Rightarrow> is_dir n)"
    proof
      assume "loc = [''overlay'']"
      then have "map_of es ''overlay'' = Some n"
        using 3(2) r by (simp split: option.splits)
      then have "is_dir n" using W by simp
      then show "case Some n' of None \<Rightarrow> True | Some n \<Rightarrow> is_dir n"
        using K by simp
    qed
    have g: "loc = [''.git-overlay.state.json''] \<longrightarrow> (case Some n' of None \<Rightarrow> True | Some n \<Rightarrow> \<exists>c m. n = File c m)"
    proof
      assume "loc = [''.git-overlay.state.json'']"
      then have "map_of es ''.git-overlay.state.json'' = Some n"
        using 3(2) r by (simp split: option.splits)
      then obtain c m where "n = File c m"
        using W by (cases n) simp_all
      then show "case Some n' of None \<Rightarrow> True | Some n \<Rightarrow> \<exists>c m. n = File c m"
        using K by simp
    qed
    show ?thesis
      unfolding 3(4) by (rule put_workdir_ok [OF ok 3(1) o g])
  qed
qed

lemma clean_path_fs:
  assumes "clean_path managed relPath c = Inr c'"
  shows "clean_fs c' = clean_fs c
     \<or> (\<exists>root'. os_Remove (clean_fs c) (Join [''overlay'', relPath]) = Inr root' \<and> clean_fs c' = root')
     \<or> (\<exists>root' e. os_RemoveAll (clean_fs c) (Join [''overlay'', relPath]) = (root', e) \<and> clean_fs c' = root')"
proof (cases "os_Lstat (clean_fs c) (Join [''overlay'', relPath])")
  case (Inl e)
  then show ?thesis
    using assms by (auto simp: clean_path_def Let_def split: if_splits)
next
  case (Inr info)
  show ?thesis
  proof (cases "is_dir info")
    case False
    show ?thesis
    proof (cases "os_Remove (clean_fs c) (Join [''overlay'', relPath])")
      case (Inl e)
      then show ?thesis
        using assms Inr False by (auto simp: clean_path_def Let_def)
    next
      case r: (Inr root')
      then show ?thesis
        using assms Inr False by (auto simp: clean_path_def Let_def)
    qed
  next
    case True
    show ?thesis
    proof (cases "isFullyManaged (Join [''overlay'', relPath]) managed info")
      case False
      then show ?thesis
        using assms Inr True by (auto simp: clean_path_def Let_def)
    next
      case m: True
      obtain root' e where r: "os_RemoveAll (clean_fs c) (Join [''overlay'', relPath]) = (root', e)"
        by (cases "os_RemoveAll (clean_fs c) (Join [''overlay'', relPath])") blast
      then show ?thesis
        using assms Inr True m by (cases e) (auto simp: clean_path_def Let_def)
    qed
  qed
qed

lemma clean_path_workdir_ok:
  assumes "clean_path managed relPath c = Inr c'" "workdir_ok (clean_fs c)"
  shows "workdir_ok (clean_fs c')"
  using clean_path_fs [OF assms(1)] assms(2) os_Remove_workdir_ok os_RemoveAll_workdir_ok
  by metis

lemma clean_paths_workdir_ok:
  "clean_paths managed ps c = (c', r) \<Longrightarrow> workdir_ok (clean_fs c) \<Longrightarrow> workdir_ok (clean_fs c')"
proof (induction ps arbitrary: c)
  case Nil
  then show ?case by simp
next
  case (Cons p ps)
  show ?case
  proof (cases "clean_path managed p c")
    case (Inl e)
    then show ?thesis using Cons.prems by simp
  next
    case (Inr c1)
    then have "clean_paths managed ps c1 = (c', r)"
      using Cons.prems by simp
    then show ?thesis
      using Cons.IH [of c1] clean_path_workdir_ok [OF Inr Cons.prems(2)] by blast
  qed
qed

text \<open>
  Pruning is stable: a directory that \<open>removeEmptyDirs\<close> has left is left as it is
  by a second pass.
\<close>

lemma removeEmptyDirs_stable:
  "\<forall>m. removeEmptyDirs dir pw n = (Some m, None) \<longrightarrow>
      is_dir m \<and> (\<forall>pw'. removeEmptyDirs dir pw' m = (Some m, None))"
  "\<forall>es'. removeEmptyDirs_entries dir w es = (es', None) \<longrightarrow>
      removeEmptyDirs_entries dir w es' = (es', None)"
proof (induction dir pw n and dir w es rule: removeEmptyDirs_removeEmptyDirs_entries.induct)
  case (1 dir pw w es)
  show ?case
  proof (intro allI impI)
    fix m assume a: "removeEmptyDirs dir pw (Directory w es) = (Some m, None)"
    obtain es' e where r: "removeEmptyDirs_entries dir w es = (es', e)"
      by (cases "removeEmptyDirs_entries dir w es") blast
    from a r have e: "e = None" and m: "m = Directory w es'" and k: "\<not> (es' = [] \<and> dir \<noteq> ''overlay'')"
      by (auto split: option.splits if_splits)
    have "removeEmptyDirs_entries dir w es' = (es', None)"
      using 1 r e by simp
    then show "is_dir m \<and> (\<forall>pw'. removeEmptyDirs dir pw' m = (Some m, None))"
      using m k by auto
  qed
next
  case (2 dir pw c m)
  then show ?case by simp
next
  case (3 dir pw t)
  then show ?case by simp
next
  case (4 dir w)
  then show ?case by simp
next
  case (5 dir w entry es)
  show ?case
  proof (intro allI impI)
    fix es' assume a: "removeEmptyDirs_entries dir w (entry # es) = (es', None)"
    show "removeEmptyDirs_entries dir w es' = (es', None)"
    proof (cases "is_dir (snd entry)")
      case False
      obtain es1 e where r: "removeEmptyDirs_entries dir w es = (es1, e)"
        by (cases "removeEmptyDirs_entries dir w es") blast
      with a False have "e = None" "es' = entry # es1"
        by auto
      moreover have "removeEmptyDirs_entries dir w es1 = (es1, None)"
        using 5(3) [OF False] r calculation by simp
      ultimately show ?thesis
        using False by simp
    next
      case True
      obtain c' e where r: "removeEmptyDirs (Join [dir, fst entry]) w (snd entry) = (c', e)"
        by (cases "removeEmptyDirs (Join [dir, fst entry]) w (snd entry)") blast
      from a True r have e: "e = None"
        by (auto split: option.splits)
      obtain es1 e1 where r1: "removeEmptyDirs_entries dir w es = (es1, e1)"
        by (cases "removeEmptyDirs_entries dir w es") blast
      from a True r e r1 have e1: "e1 = None"
        and es': "es' = (case c' of None \<Rightarrow> es1 | Some c \<Rightarrow> (fst entry, c) # es1)"
        by auto
      have s1: "removeEmptyDirs_entries dir w es1 = (es1, None)"
        using 5(2) [OF True r [symmetric] e] r1 e1 by simp
      show ?thesis
      proof (cases c')
        case None
        then show ?thesis using es' s1 by simp
      next
        case (Some c)
        have "is_dir c \<and> removeEmptyDirs (Join [dir, fst entry]) w c = (Some c, None)"
          using 5(1) [OF True] r e Some by simp
        then show ?thesis
          using es' s1 Some by simp
      qed
    qed
  qed
qed

lemma split_sep_overlay: "split_sep ''overlay'' = [''overlay'']"
  by (simp add: split_sep_no_slash_id)

lemma split_sep_registry: "split_sep ''.git-overlay.state.json'' = [''.git-overlay.state.json'']"
  by (simp add: split_sep_no_slash_id)

lemma resolve_overlay_dir:
  assumes "dir_child root ''overlay'' = Some ov" "is_dir ov"
  shows "resolve root ''overlay'' True = Inr [''overlay'']"
proof -
  have "kind_at root ([] @ [''overlay'']) = KDir"
    using assms by (cases ov) (simp_all add: kind_at_def)
  then show ?thesis
    by (simp add: resolve_def split_sep_overlay namei_step del: namei.simps(2))
qed

lemma resolve_overlay_absent:
  assumes "dir_child root ''overlay'' = None"
  shows "resolve root ''overlay'' True = Inr [''overlay'']"
proof -
  have "kind_at root ([] @ [''overlay'']) = KAbsent"
    using assms by (simp add: kind_at_def)
  then show ?thesis
    by (simp add: resolve_def split_sep_overlay namei_step del: namei.simps(2))
qed

lemma resolve_registry:
  assumes "dir_child root ''.git-overlay.state.json'' = None
     \<or> (\<exists>c m. dir_child root ''.git-overlay.state.json'' = Some (File c m))"
  shows "resolve root ''.git-overlay.state.json'' True = Inr [''.git-overlay.state.json'']"
proof -
  have "kind_at root ([] @ [''.git-overlay.state.json'']) = KAbsent
      \<or> kind_at root ([] @ [''.git-overlay.state.json'']) = KFile"
    using assms by (auto simp: kind_at_def)
  then show ?thesis
    by (auto simp: resolve_def split_sep_registry namei_step simp del: namei.simps(2))
qed

lemma removeEmptyDirs_overlay_result:
  assumes o: "dir_child root ''overlay'' = Some ov" "is_dir ov"
    and r: "removeEmptyDirs_overlay root = (root', None)"
  shows "\<exists>m. root' = put root [''overlay''] (Some m) \<and> is_dir m
     \<and> (\<forall>pw. removeEmptyDirs ''overlay'' pw m = (Some m, None))"
proof -
  note R = resolve_overlay_dir [OF o]
  have g: "get root [''overlay''] = Some ov"
    using o(1) by (simp add: get_single)
  obtain w es where ov: "ov = Directory w es"
    using o(2) by (cases ov) simp_all
  obtain n' e where p: "removeEmptyDirs ''overlay'' (parent_writable root [''overlay'']) ov = (n', e)"
    by (cases "removeEmptyDirs ''overlay'' (parent_writable root [''overlay'']) ov") blast
  have "n' \<noteq> None"
    using p ov by (auto split: prod.splits option.splits if_splits)
  then obtain m where n': "n' = Some m" by blast
  from r R g p have e: "e = None" and root': "root' = put root [''overlay''] n'"
    by (simp_all add: removeEmptyDirs_overlay_def del: get.simps put.simps)
  note S = removeEmptyDirs_stable(1) [rule_format, OF p [unfolded e n']]
  show ?thesis
    using root' n' S by blast
qed

lemma removeEmptyDirs_overlay_stable:
  assumes s: "sorted_wrt (<) (map fst es)" and m: "map_of es ''overlay'' = Some m" and d: "is_dir m"
    and st: "\<forall>pw. removeEmptyDirs ''overlay'' pw m = (Some m, None)"
  shows "removeEmptyDirs_overlay (Directory rw es) = (Directory rw es, None)"
proof -
  have o: "dir_child (Directory rw es) ''overlay'' = Some m"
    using m by simp
  note R = resolve_overlay_dir [OF o d]
  have g: "get (Directory rw es) [''overlay''] = Some m"
    using m by simp
  have p: "put (Directory rw es) [''overlay''] (Some m) = Directory rw es"
    using set_entry_same [OF s m] by simp
  show ?thesis
    using R g st p by (simp add: removeEmptyDirs_overlay_def del: get.simps put.simps)
qed

lemma os_WriteFile_registry:
  assumes s: "os_WriteFile (Directory rw es) ''.git-overlay.state.json'' data = Inr root'"
    and k: "map_of es ''.git-overlay.state.json'' = None
       \<or> (\<exists>c m. map_of es ''.git-overlay.state.json'' = Some (File c m))"
  shows "\<exists>m. root' = Directory rw (set_entry es ''.git-overlay.state.json'' (Some (File data m)))
     \<and> (\<forall>c m0. map_of es ''.git-overlay.state.json'' = Some (File c m0) \<longrightarrow> m = m0)"
proof -
  let ?g = "''.git-overlay.state.json''"
  let ?root = "Directory rw es"
  have R: "resolve ?root ?g True = Inr [?g]"
    using k by (intro resolve_registry) simp
  show ?thesis
  proof (cases "map_of es ?g")
    case None
    then have g: "get ?root [?g] = None" by simp
    have c: "os_Create ?root ?g = Inr (put ?root [?g] (Some (File [] 420)), [?g])"
      using s R g by (auto simp: os_WriteFile_def os_Create_def simp del: get.simps put.simps split: if_splits)
    have "get (put ?root [?g] (Some (File [] 420))) [?g] = Some (File [] 420)"
      by (simp add: map_of_set_entry)
    then have "root' = put (put ?root [?g] (Some (File [] 420))) [?g] (Some (File data 420))"
      using s c by (simp add: os_WriteFile_def del: get.simps put.simps)
    then have "root' = Directory rw (set_entry es ?g (Some (File data 420)))"
      by (simp add: set_entry_set_entry)
    then show ?thesis
      using None by auto
  next
    case (Some n)
    then obtain c0 m0 where n: "n = File c0 m0"
      using k by auto
    have g: "get ?root [?g] = Some (File c0 m0)"
      using Some n by simp
    have c: "os_Create ?root ?g = Inr (put ?root [?g] (Some (File [] m0)), [?g])"
      using R g by (simp add: os_Create_def del: get.simps put.simps)
    have "get (put ?root [?g] (Some (File [] m0))) [?g] = Some (File [] m0)"
      by (simp add: map_of_set_entry)
    then have "root' = put (put ?root [?g] (Some (File [] m0))) [?g] (Some (File data m0))"
      using s c by (simp add: os_WriteFile_def del: get.simps put.simps)
    then have "root' = Directory rw (set_entry es ?g (Some (File data m0)))"
      by (simp add: set_entry_set_entry)
    then show ?thesis
      using Some n by auto
  qed
qed

lemma os_WriteFile_registry_same:
  assumes s: "sorted_wrt (<) (map fst es)"
    and k: "map_of es ''.git-overlay.state.json'' = Some (File data m)"
  shows "os_WriteFile (Directory rw es) ''.git-overlay.state.json'' data = Inr (Directory rw es)"
proof -
  let ?g = "''.git-overlay.state.json''"
  let ?root = "Directory rw es"
  have R: "resolve ?root ?g True = Inr [?g]"
    using k by (intro resolve_registry) simp
  have g: "get ?root [?g] = Some (File data m)"
    using k by simp
  have c: "os_Create ?root ?g = Inr (put ?root [?g] (Some (File [] m)), [?g])"
    using R g by (simp add: os_Create_def del: get.simps put.simps)
  have g1: "get (put ?root [?g] (Some (File [] m))) [?g] = Some (File [] m)"
    by (simp add: map_of_set_entry)
  have "put (put ?root [?g] (Some (File [] m))) [?g] (Some (File data m)) = ?root"
    using set_entry_same [OF s k] by (simp add: set_entry_set_entry)
  then show ?thesis
    using c g1 by (simp add: os_WriteFile_def del: get.simps put.simps)
qed

lemma clean_empty_registry:
  assumes o: "os_Stat root ''overlay'' \<noteq> Inl ENOENT"
    and l: "LoadState j root = Inr \<lparr>ManagedFiles = []\<rparr>"
    and p: "removeEmptyDirs_overlay root = (root, None)"
    and s: "SaveState j \<lparr>ManagedFiles = []\<rparr> root = Inr root"
  shows "clean j root = (root, Inr 0)"
  using o l p s by (simp add: clean_def managedPaths_def sortedPaths_def sort_slice_def)

lemma clean_leaves_workdir:
  assumes ok: "workdir_ok w" and c: "clean j w = (w', Inr n)"
  shows "\<exists>rw es m mo. w' = Directory rw es \<and> sorted_wrt (<) (map fst es)
     \<and> map_of es ''overlay'' = Some m \<and> is_dir m
     \<and> (\<forall>pw. removeEmptyDirs ''overlay'' pw m = (Some m, None))
     \<and> map_of es ''.git-overlay.state.json'' = Some (File (MarshalIndent j \<lparr>ManagedFiles = []\<rparr>) mo)"
proof -
  let ?g = "''.git-overlay.state.json''"
  from clean_success [OF c] obtain st c1 root1 where
    p: "clean_paths (managedPaths st) (sortedPaths st) \<lparr>clean_fs = w, clean_state = st, removed = 0\<rparr> = (c1, None)"
    and r: "removeEmptyDirs_overlay (clean_fs c1) = (root1, None)"
    and s: "SaveState j \<lparr>ManagedFiles = []\<rparr> root1 = Inr w'"
    by blast
  have ok1: "workdir_ok (clean_fs c1)"
    using clean_paths_workdir_ok [OF p] ok by simp
  have "dir_child (clean_fs c1) ''overlay'' \<noteq> None"
  proof
    assume none: "dir_child (clean_fs c1) ''overlay'' = None"
    then have "get (clean_fs c1) [''overlay''] = None"
      by (simp add: get_single)
    then show False
      using r resolve_overlay_absent [OF none]
      by (simp add: removeEmptyDirs_overlay_def del: get.simps)
  qed
  then obtain ov where o1: "dir_child (clean_fs c1) ''overlay'' = Some ov"
    by blast
  have d1: "is_dir ov"
    using ok1 o1 by (simp add: workdir_ok_def)
  from removeEmptyDirs_overlay_result [OF o1 d1 r] obtain m where
    root1: "root1 = put (clean_fs c1) [''overlay''] (Some m)" and dm: "is_dir m"
    and st: "\<forall>pw. removeEmptyDirs ''overlay'' pw m = (Some m, None)"
    by blast
  have ok2: "workdir_ok root1"
    unfolding root1 using dm by (intro put_workdir_ok [OF ok1]) simp_all
  obtain rw es0 where c1: "clean_fs c1 = Directory rw es0"
    using workdir_ok_dir [OF ok1] by blast
  define es1 where "es1 = set_entry es0 ''overlay'' (Some m)"
  have r1: "root1 = Directory rw es1"
    using root1 c1 by (simp add: es1_def)
  note W = ok2 [unfolded r1 workdir_ok_Directory]
  have m1: "map_of es1 ''overlay'' = Some m"
    by (simp add: es1_def map_of_set_entry)
  have k: "map_of es1 ?g = None \<or> (\<exists>c m. map_of es1 ?g = Some (File c m))"
    using W by (auto split: option.splits node.splits)
  have "os_WriteFile (Directory rw es1) ?g (MarshalIndent j \<lparr>ManagedFiles = []\<rparr>) = Inr w'"
    using s r1 by (simp add: SaveState_def split: sum.splits)
  from os_WriteFile_registry [OF this k] obtain mo where
    w': "w' = Directory rw (set_entry es1 ?g (Some (File (MarshalIndent j \<lparr>ManagedFiles = []\<rparr>) mo)))"
    by blast
  let ?es = "set_entry es1 ?g (Some (File (MarshalIndent j \<lparr>ManagedFiles = []\<rparr>) mo))"
  have a: "sorted_wrt (<) (map fst ?es)"
    using W by (simp add: sorted_set_entry)
  have b: "map_of ?es ''overlay'' = Some m"
    using m1 by (simp add: map_of_set_entry)
  have g: "map_of ?es ?g = Some (File (MarshalIndent j \<lparr>ManagedFiles = []\<rparr>) mo)"
    by (simp add: map_of_set_entry)
  show ?thesis
    using w' a b dm st g by blast
qed

text \<open>
  Claim C6. Clean twice in succession, on a working directory as the program expects it
  (\<open>overlay\<close> a directory and the registry a regular file in a directory listed in name
  order) and with a JSON package that reads back the empty registry it wrote: when the
  first call succeeds, the second succeeds, removes nothing (count 0) and returns the tree
  the first call left, managed and custom content alike, in which the registry is empty.
\<close>

theorem clean_twice:
  assumes ok: "workdir_ok w"
    and u: "Unmarshal j (MarshalIndent j \<lparr>ManagedFiles = []\<rparr>) = Some \<lparr>ManagedFiles = []\<rparr>"
    and c: "clean j w = (w', Inr n)"
  shows "clean j w' = (w', Inr 0) \<and> LoadState j w' = Inr \<lparr>ManagedFiles = []\<rparr> \<and> workdir_ok w'"
proof -
  let ?g = "''.git-overlay.state.json''"
  let ?d = "MarshalIndent j \<lparr>ManagedFiles = []\<rparr>"
  from clean_leaves_workdir [OF ok c] obtain rw es m mo where
    w': "w' = Directory rw es" and srt: "sorted_wrt (<) (map fst es)"
    and ov: "map_of es ''overlay'' = Some m" and dm: "is_dir m"
    and st: "\<forall>pw. removeEmptyDirs ''overlay'' pw m = (Some m, None)"
    and g: "map_of es ?g = Some (File ?d mo)"
    by blast
  have o: "dir_child w' ''overlay'' = Some m"
    using w' ov by simp
  have stat: "os_Stat w' ''overlay'' \<noteq> Inl ENOENT"
    using resolve_overlay_dir [OF o dm] o
    by (simp add: os_Stat_def node_at_def get_single del: get.simps)
  have rd: "os_ReadFile w' ?g = Inr ?d"
    using clean_registry_emptied [OF c] .
  have ld: "LoadState j w' = Inr \<lparr>ManagedFiles = []\<rparr>"
    by (rule LoadState_read [OF rd u])
  have pr: "removeEmptyDirs_overlay w' = (w', None)"
    unfolding w' by (rule removeEmptyDirs_overlay_stable [OF srt ov dm st])
  have sv: "SaveState j \<lparr>ManagedFiles = []\<rparr> w' = Inr w'"
    unfolding w' using os_WriteFile_registry_same [OF srt g] by (simp add: SaveState_def)
  have again: "clean j w' = (w', Inr 0)"
    by (rule clean_empty_registry [OF stat ld pr sv])
  have okw: "workdir_ok w'"
    unfolding w' workdir_ok_Directory using srt ov dm g by simp
  show ?thesis
    using again ld okw by blast
qed


text \<open>
  The statement on the example: the first clean removes the managed link and prunes the
  empty directory \<open>keep\<close>; the second changes nothing.
\<close>

theorem clean_twice_witness:
  "workdir_ok ex_tree_linked_saved
   \<and> Unmarshal ex_json (MarshalIndent ex_json \<lparr>ManagedFiles = []\<rparr>) = Some \<lparr>ManagedFiles = []\<rparr>
   \<and> clean ex_json ex_tree_linked_saved = (ex_tree_cleaned, Inr 1)
   \<and> clean ex_json ex_tree_cleaned = (ex_tree_cleaned, Inr 0)
   \<and> LoadState ex_json ex_tree_cleaned = Inr \<lparr>ManagedFiles = []\<rparr>
   \<and> workdir_ok ex_tree_cleaned"
proof -
  have ok: "workdir_ok ex_tree_linked_saved"
    by code_simp
  have u: "Unmarshal ex_json (MarshalIndent ex_json \<lparr>ManagedFiles = []\<rparr>) = Some \<lparr>ManagedFiles = []\<rparr>"
    by code_simp
  have c: "clean ex_json ex_tree_linked_saved = (ex_tree_cleaned, Inr 1)"
    by code_simp
  note T = clean_twice [OF ok u c]
  show ?thesis
    by (intro conjI) (rule ok u c T [THEN conjunct1] T [THEN conjunct2, THEN conjunct1]
        T [THEN conjunct2, THEN conjunct2])+
qed

section \<open>Materialize, then clean\<close>





























end
